theory Spec2Isabelle
  imports Main "HOL-Library.Product_Lexorder"
begin
unbundle bit_operations_syntax

section \<open>The enclose solver (solver.hpp) as HOL functions\<close>

text \<open>
  Conventions of the embedding.
  \<^item> C++ \<open>int\<close> values that may be negative (\<open>k\<close>, \<open>k_rem\<close>, capacities, the
    \<open>parent\<close> array with its sentinels \<open>-1\<close> and \<open>-2\<close>, coordinates, the result of
    \<open>first_set_bit\<close>) are \<open>int\<close>; indices of cells, nodes and edges are \<open>nat\<close>.
    The only arithmetic on the budget is \<open>k + 1\<close>, \<open>k_rem + 1\<close> and \<open>k_rem - 1\<close>; the
    embedding takes it exact, as it is for every budget below \<open>INT_MAX\<close>.
  \<^item> A \<open>DynamicBitset\<close> of width \<open>nbits\<close> is the list of its \<open>nbits\<close> bits; the
    packing of the bits into 64-bit words is not modelled.
  \<^item> The lambdas of \<open>solve\<close> capture the graph and the flow template by reference;
    the embedding passes them as a record \<open>Ctx\<close>.
  \<^item> The \<open>while\<close> loops whose termination rests on an invariant are partial
    functions into \<open>option\<close>; that they return is proved, not assumed.
\<close>

subsection \<open>DynamicBitset\<close>

type_synonym DynamicBitset = "bool list"

definition init :: "nat \<Rightarrow> DynamicBitset" where
  "init n = replicate n False"

definition bset :: "DynamicBitset \<Rightarrow> nat \<Rightarrow> DynamicBitset" where
  "bset b i = b[i := True]"

definition test :: "DynamicBitset \<Rightarrow> nat \<Rightarrow> bool" where
  "test b i = b ! i"

definition bempty :: "DynamicBitset \<Rightarrow> bool" where
  "bempty b = (\<not> list_ex (\<lambda>x. x) b)"

definition popcount :: "DynamicBitset \<Rightarrow> int" where
  "popcount b = int (length (filter (\<lambda>x. x) b))"

definition or_with :: "DynamicBitset \<Rightarrow> DynamicBitset \<Rightarrow> DynamicBitset" where
  "or_with a other = map (\<lambda>i. a ! i \<or> other ! i) [0..<length a]"

definition intersects :: "DynamicBitset \<Rightarrow> DynamicBitset \<Rightarrow> bool" where
  "intersects a other = list_ex (\<lambda>i. a ! i \<and> other ! i) [0..<length a]"

definition subset_of :: "DynamicBitset \<Rightarrow> DynamicBitset \<Rightarrow> bool" where
  "subset_of a super = list_all (\<lambda>i. a ! i \<longrightarrow> super ! i) [0..<length a]"

text \<open>\<open>for_each_set_bit f\<close> calls \<open>f\<close> on the set bits in ascending order; the
  embedding folds over this list of indices.\<close>

definition set_bits :: "DynamicBitset \<Rightarrow> nat list" where
  "set_bits b = filter (\<lambda>i. b ! i) [0..<length b]"

definition first_set_bit :: "DynamicBitset \<Rightarrow> int" where
  "first_set_bit b = (case set_bits b of [] \<Rightarrow> -1 | i # _ \<Rightarrow> int i)"

subsection \<open>Search state\<close>

record State =
  deleted :: DynamicBitset
  forced :: DynamicBitset
  k_rem :: int

subsection \<open>FlowTemplate\<close>

text \<open>The fields \<open>n\<close> and \<open>rev\<close> of the source are \<open>nn\<close> and \<open>rev_of\<close> here.\<close>

record FlowTemplate =
  nn :: nat
  adj :: "nat list list"
  in_adj :: "nat list list"
  to :: "nat list"
  frm :: "nat list"
  rev_of :: "nat list"
  base_cap :: "int list"

definition FlowTemplate_new :: "nat \<Rightarrow> FlowTemplate" where
  "FlowTemplate_new n0 =
     \<lparr>nn = n0, adj = replicate n0 [], in_adj = replicate n0 [],
      to = [], frm = [], rev_of = [], base_cap = []\<rparr>"

definition add_edge :: "FlowTemplate \<Rightarrow> nat \<Rightarrow> nat \<Rightarrow> int \<Rightarrow> nat \<times> FlowTemplate" where
  "add_edge ft u v c =
     (let idx = length (to ft);
          adj1 = (adj ft)[u := adj ft ! u @ [idx]];
          adj2 = adj1[v := adj1 ! v @ [idx + 1]];
          in1 = (in_adj ft)[v := in_adj ft ! v @ [idx]];
          in2 = in1[u := in1 ! u @ [idx + 1]]
      in (idx, ft\<lparr>to := to ft @ [v, u], frm := frm ft @ [u, v],
                  rev_of := rev_of ft @ [idx + 1, idx], base_cap := base_cap ft @ [c, 0],
                  adj := adj2, in_adj := in2\<rparr>))"

text \<open>The \<open>for (int e : adj[u])\<close> loop of the breadth-first search of
  \<open>maxflow_limit\<close>, with its \<open>continue\<close>s and its \<open>q.clear(); break\<close>.\<close>

fun scan_edges ::
  "FlowTemplate \<Rightarrow> nat \<Rightarrow> int list \<Rightarrow> nat list \<Rightarrow> nat list \<Rightarrow> int list \<Rightarrow> nat list \<times> int list"
where
  "scan_edges ft t cap [] q parent = (q, parent)"
| "scan_edges ft t cap (e # es) q parent =
     (if cap ! e \<le> 0 then scan_edges ft t cap es q parent
      else let v = to ft ! e in
        if parent ! v \<noteq> -1 then scan_edges ft t cap es q parent
        else let parent' = parent[v := int e] in
          if v = t then ([], parent')
          else scan_edges ft t cap es (q @ [v]) parent')"

text \<open>\<open>while (!q.empty() && parent[t] == -1)\<close>.\<close>

partial_function (option) flow_bfs ::
  "FlowTemplate \<Rightarrow> nat \<Rightarrow> int list \<Rightarrow> nat list \<Rightarrow> int list \<Rightarrow> int list option"
where
  "flow_bfs ft t cap q parent =
     (if q \<noteq> [] \<and> parent ! t = -1
      then (case scan_edges ft t cap (adj ft ! hd q) (tl q) parent of
              (q', parent') \<Rightarrow> flow_bfs ft t cap q' parent')
      else Some parent)"

declare flow_bfs.simps [code]

text \<open>\<open>while (v != s)\<close>: one unit of flow along the parent pointers.\<close>

partial_function (option) augment ::
  "FlowTemplate \<Rightarrow> nat \<Rightarrow> int list \<Rightarrow> nat \<Rightarrow> int list \<Rightarrow> int list option"
where
  "augment ft s parent v cap =
     (if v \<noteq> s
      then (let e = nat (parent ! v);
                cap1 = cap[e := cap ! e - 1];
                cap2 = cap1[rev_of ft ! e := cap1 ! (rev_of ft ! e) + 1]
            in augment ft s parent (frm ft ! e) cap2)
      else Some cap)"

declare augment.simps [code]

text \<open>\<open>while (flow < limit)\<close>; the result is the flow and the capacity vector,
  which the source updates in place.\<close>

partial_function (option) maxflow_loop ::
  "FlowTemplate \<Rightarrow> nat \<Rightarrow> nat \<Rightarrow> int \<Rightarrow> int \<Rightarrow> int list \<Rightarrow> (int \<times> int list) option"
where
  "maxflow_loop ft s t limit flow cap =
     (if flow < limit
      then (case flow_bfs ft t cap [s] ((replicate (nn ft) (-1))[s := -2]) of
              None \<Rightarrow> None
            | Some parent \<Rightarrow>
                if parent ! t = -1 then Some (flow, cap)
                else (case augment ft s parent t cap of
                        None \<Rightarrow> None
                      | Some cap' \<Rightarrow> maxflow_loop ft s t limit (flow + 1) cap'))
      else Some (flow, cap))"

declare maxflow_loop.simps [code]

definition maxflow_limit ::
  "FlowTemplate \<Rightarrow> nat \<Rightarrow> nat \<Rightarrow> int list \<Rightarrow> int \<Rightarrow> (int \<times> int list) option"
where
  "maxflow_limit ft s t cap limit = maxflow_loop ft s t limit 0 cap"


subsection \<open>Graph construction (the first half of \<open>solve\<close>)\<close>

definition is_open_cell :: "char \<Rightarrow> bool" where
  "is_open_cell ch = (ch = CHR ''.'' \<or> ch = CHR ''H'')"

text \<open>\<open>grid[r][c]\<close>; the source reads it for \<open>0 \<le> r < R\<close> and \<open>0 \<le> c < C\<close> only.\<close>

definition cell_at :: "string list \<Rightarrow> int \<Rightarrow> int \<Rightarrow> char" where
  "cell_at grid r c = grid ! nat r ! nat c"

text \<open>The two nested loops that look for the first \<open>H\<close> in row-major order.\<close>

definition find_in_row :: "string list \<Rightarrow> int \<Rightarrow> int \<Rightarrow> int option" where
  "find_in_row grid C r = find (\<lambda>c. cell_at grid r c = CHR ''H'') (map int [0..<nat C])"

fun find_horse :: "string list \<Rightarrow> int \<Rightarrow> int list \<Rightarrow> (int \<times> int) option" where
  "find_horse grid C [] = None"
| "find_horse grid C (r # rs) =
     (case find_in_row grid C r of
        Some c \<Rightarrow> Some (r, c)
      | None \<Rightarrow> find_horse grid C rs)"

text \<open>\<open>key(r, c) = (long long)r << 32 ^ (unsigned long long)c\<close>, read as a signed
  64-bit value: on 32-bit arguments that is the integer \<open>push_bit 32 r XOR c\<close>.\<close>

definition key :: "int \<Rightarrow> int \<Rightarrow> int" where
  "key r c = push_bit 32 r XOR c"

definition drs :: "int list" where "drs = [1, -1, 0, 0]"
definition dcs :: "int list" where "dcs = [0, 0, 1, -1]"

type_synonym index_state = "(int \<rightharpoonup> nat) \<times> (int \<times> int) list \<times> (int \<times> int) list"

text \<open>The \<open>for (di ...)\<close> loop of the flood fill that numbers the open cells; the state
  is \<open>idx_of\<close>, \<open>coords\<close> and the queue.\<close>

fun discover ::
  "string list \<Rightarrow> int \<Rightarrow> int \<Rightarrow> int \<Rightarrow> int \<Rightarrow> nat list \<Rightarrow> index_state \<Rightarrow> index_state"
where
  "discover grid R C r c [] st = st"
| "discover grid R C r c (di # dis) (idx_of, coords, q) =
     (let nr = r + drs ! di; nc = c + dcs ! di in
      if nr < 0 \<or> nr \<ge> R \<or> nc < 0 \<or> nc \<ge> C
      then discover grid R C r c dis (idx_of, coords, q)
      else if \<not> is_open_cell (cell_at grid nr nc)
      then discover grid R C r c dis (idx_of, coords, q)
      else let kk = key nr nc in
        if idx_of kk \<noteq> None then discover grid R C r c dis (idx_of, coords, q)
        else let id = length coords in
          discover grid R C r c dis
            (idx_of(kk \<mapsto> id), coords @ [(nr, nc)], q @ [(nr, nc)]))"

partial_function (option) index_cells ::
  "string list \<Rightarrow> int \<Rightarrow> int \<Rightarrow> (int \<rightharpoonup> nat) \<Rightarrow> (int \<times> int) list \<Rightarrow> (int \<times> int) list
     \<Rightarrow> ((int \<rightharpoonup> nat) \<times> (int \<times> int) list) option"
where
  "index_cells grid R C idx_of coords q =
     (if q \<noteq> []
      then (case discover grid R C (fst (hd q)) (snd (hd q)) [0..<4] (idx_of, coords, tl q) of
              (idx_of', coords', q') \<Rightarrow> index_cells grid R C idx_of' coords' q')
      else Some (idx_of, coords))"

declare index_cells.simps [code]

definition horse_idx :: nat where "horse_idx = 0"

text \<open>The loop over the indices that fills \<open>boundary\<close>, \<open>wallable\<close> and \<open>adj\<close>.\<close>

definition on_boundary :: "int \<Rightarrow> int \<Rightarrow> int \<times> int \<Rightarrow> bool" where
  "on_boundary R C p = (fst p = 0 \<or> fst p = R - 1 \<or> snd p = 0 \<or> snd p = C - 1)"

definition mk_boundary :: "int \<Rightarrow> int \<Rightarrow> (int \<times> int) list \<Rightarrow> DynamicBitset" where
  "mk_boundary R C coords =
     fold (\<lambda>i b. if on_boundary R C (coords ! i) then bset b i else b)
       [0..<length coords] (init (length coords))"

definition mk_wallable :: "string list \<Rightarrow> (int \<times> int) list \<Rightarrow> bool list" where
  "mk_wallable grid coords =
     map (\<lambda>i. cell_at grid (fst (coords ! i)) (snd (coords ! i)) = CHR ''.'') [0..<length coords]"

definition neighbours :: "(int \<rightharpoonup> nat) \<Rightarrow> int \<times> int \<Rightarrow> nat list" where
  "neighbours idx_of p =
     List.map_filter (\<lambda>di. idx_of (key (fst p + drs ! di) (snd p + dcs ! di))) [0..<4]"

definition mk_adj :: "(int \<rightharpoonup> nat) \<Rightarrow> (int \<times> int) list \<Rightarrow> nat list list" where
  "mk_adj idx_of coords = map (\<lambda>i. neighbours idx_of (coords ! i)) [0..<length coords]"

subsection \<open>The flow network of \<open>solve\<close>\<close>

text \<open>The four loops that add the cell edges, the adjacency edges, the edges to the
  sink and the edges from the source.\<close>

definition add_cell_edges ::
  "nat \<Rightarrow> bool list \<Rightarrow> int \<Rightarrow> FlowTemplate \<Rightarrow> FlowTemplate \<times> nat list" where
  "add_cell_edges cN wl cinf ft =
     fold (\<lambda>i (ft, cell_edge_idx).
             let cap_cell = (if i = horse_idx \<or> \<not> wl ! i then cinf else 1);
                 (idx, ft') = add_edge ft (2 * i) (2 * i + 1) cap_cell
             in (ft', cell_edge_idx[i := idx]))
       [0..<cN] (ft, replicate cN 0)"

definition add_adj_edges :: "nat \<Rightarrow> nat list list \<Rightarrow> int \<Rightarrow> FlowTemplate \<Rightarrow> FlowTemplate" where
  "add_adj_edges cN ga cinf ft =
     fold (\<lambda>i ft. fold (\<lambda>j ft. snd (add_edge ft (2 * i + 1) (2 * j) cinf)) (ga ! i) ft)
       [0..<cN] ft"

definition add_sink_edges ::
  "nat \<Rightarrow> DynamicBitset \<Rightarrow> nat \<Rightarrow> int \<Rightarrow> FlowTemplate \<Rightarrow> FlowTemplate" where
  "add_sink_edges cN bd snk cinf ft =
     fold (\<lambda>i ft. if test bd i then snd (add_edge ft (2 * i + 1) snk cinf) else ft) [0..<cN] ft"

definition add_src_edges ::
  "nat \<Rightarrow> nat \<Rightarrow> int \<Rightarrow> FlowTemplate \<Rightarrow> FlowTemplate \<times> nat list" where
  "add_src_edges cN src cinf ft =
     fold (\<lambda>i (ft, src_edge_idx).
             let cap_src = (if i = horse_idx then cinf else 0);
                 (idx, ft') = add_edge ft src (2 * i + 1) cap_src
             in (ft', src_edge_idx[i := idx]))
       [0..<cN] (ft, replicate cN 0)"

text \<open>What the lambdas of \<open>solve\<close> capture; \<open>INFTY\<close> is the constant \<open>INF\<close> and
  \<open>gadj\<close> the cell adjacency \<open>adj\<close> of the source.\<close>

record Ctx =
  N :: nat
  gadj :: "nat list list"
  wallable :: "bool list"
  boundary :: DynamicBitset
  INFTY :: int
  node_count :: nat
  SRC :: nat
  SNK :: nat
  flow :: FlowTemplate
  cell_edge_idx :: "nat list"
  src_edge_idx :: "nat list"

definition mk_ctx :: "int \<Rightarrow> nat list list \<Rightarrow> bool list \<Rightarrow> DynamicBitset \<Rightarrow> Ctx" where
  "mk_ctx k ga wl bd =
     (let cN = length ga;
          cinf = k + 1;
          nc = 2 * cN + 2;
          src = 2 * cN;
          snk = 2 * cN + 1;
          (f1, ce) = add_cell_edges cN wl cinf (FlowTemplate_new nc);
          f2 = add_adj_edges cN ga cinf f1;
          f3 = add_sink_edges cN bd snk cinf f2;
          (f4, se) = add_src_edges cN src cinf f3
      in \<lparr>N = cN, gadj = ga, wallable = wl, boundary = bd, INFTY = cinf, node_count = nc,
          SRC = src, SNK = snk, flow = f4, cell_edge_idx = ce, src_edge_idx = se\<rparr>)"


subsection \<open>\<open>bfs_reachable\<close>\<close>

fun visit :: "DynamicBitset \<Rightarrow> nat list \<Rightarrow> DynamicBitset \<Rightarrow> nat list \<Rightarrow> DynamicBitset \<times> nat list"
where
  "visit blocked [] vis dq = (vis, dq)"
| "visit blocked (v # vs) vis dq =
     (if test blocked v then visit blocked vs vis dq
      else if test vis v then visit blocked vs vis dq
      else visit blocked vs (bset vis v) (dq @ [v]))"

partial_function (option) reach_loop ::
  "nat list list \<Rightarrow> DynamicBitset \<Rightarrow> DynamicBitset \<Rightarrow> nat list \<Rightarrow> DynamicBitset option"
where
  "reach_loop ga blocked vis dq =
     (if dq \<noteq> []
      then (case visit blocked (ga ! hd dq) vis (tl dq) of
              (vis', dq') \<Rightarrow> reach_loop ga blocked vis' dq')
      else Some vis)"

declare reach_loop.simps [code]

text \<open>The result is \<open>(vis_out, area_out, escapes_out)\<close>.\<close>

definition bfs_reachable :: "Ctx \<Rightarrow> DynamicBitset \<Rightarrow> (DynamicBitset \<times> int \<times> bool) option" where
  "bfs_reachable ctx blocked =
     (if test blocked horse_idx then Some (init (N ctx), 0, True)
      else (case reach_loop (gadj ctx) blocked (bset (init (N ctx)) horse_idx) [horse_idx] of
              None \<Rightarrow> None
            | Some vis \<Rightarrow> Some (vis, popcount vis, intersects vis (boundary ctx))))"

subsection \<open>\<open>min_separator\<close>\<close>

text \<open>The two \<open>for_each_set_bit\<close> passes that patch the capacities. In the second the
  \<open>return\<close> leaves the lambda only: the pass goes on over the other bits.\<close>

definition patch_deleted :: "Ctx \<Rightarrow> DynamicBitset \<Rightarrow> int list \<Rightarrow> int list" where
  "patch_deleted ctx del cap =
     fold (\<lambda>i cap. cap[cell_edge_idx ctx ! i := 0]) (set_bits del) cap"

definition patch_forced :: "Ctx \<Rightarrow> DynamicBitset \<Rightarrow> DynamicBitset \<Rightarrow> int list \<Rightarrow> bool \<times> int list"
where
  "patch_forced ctx del frc cap =
     fold (\<lambda>i (ok, cap).
             if test del i then (False, cap)
             else (ok, cap[cell_edge_idx ctx ! i := INFTY ctx, src_edge_idx ctx ! i := INFTY ctx]))
       (set_bits frc) (True, cap)"

text \<open>The backward search from the sink over edges with residual capacity.\<close>

fun scan_in ::
  "FlowTemplate \<Rightarrow> int list \<Rightarrow> nat list \<Rightarrow> bool list \<Rightarrow> nat list \<Rightarrow> bool list \<times> nat list"
where
  "scan_in ft cap [] can dq = (can, dq)"
| "scan_in ft cap (e # es) can dq =
     (let u = frm ft ! e in
      if cap ! e > 0 \<and> \<not> can ! u then scan_in ft cap es (can[u := True]) (dq @ [u])
      else scan_in ft cap es can dq)"

partial_function (option) residual_loop ::
  "FlowTemplate \<Rightarrow> int list \<Rightarrow> bool list \<Rightarrow> nat list \<Rightarrow> bool list option"
where
  "residual_loop ft cap can dq =
     (if dq \<noteq> []
      then (case scan_in ft cap (in_adj ft ! hd dq) can (tl dq) of
              (can', dq') \<Rightarrow> residual_loop ft cap can' dq')
      else Some can)"

declare residual_loop.simps [code]

definition extract_sep :: "Ctx \<Rightarrow> DynamicBitset \<Rightarrow> DynamicBitset \<Rightarrow> bool list \<Rightarrow> DynamicBitset"
where
  "extract_sep ctx del frc can =
     fold (\<lambda>i sep_out.
             if \<not> wallable ctx ! i then sep_out
             else if test del i \<or> test frc i then sep_out
             else if \<not> can ! (2 * i) \<and> can ! (2 * i + 1) then bset sep_out i
             else sep_out)
       [0..<N ctx] (init (N ctx))"

text \<open>The result \<open>Some None\<close> is the source's \<open>false\<close>, \<open>Some (Some sep)\<close> its
  \<open>true\<close> with \<open>sep_out = sep\<close>.\<close>

definition min_separator ::
  "Ctx \<Rightarrow> DynamicBitset \<Rightarrow> DynamicBitset \<Rightarrow> int \<Rightarrow> DynamicBitset option option" where
  "min_separator ctx del frc kr =
     (let cap1 = patch_deleted ctx del (base_cap (flow ctx));
          (ok, cap2) = patch_forced ctx del frc cap1
      in if \<not> ok then Some None
         else (case maxflow_limit (flow ctx) (SRC ctx) (SNK ctx) cap2 (kr + 1) of
                 None \<Rightarrow> None
               | Some (f, cap) \<Rightarrow>
                   if f > kr then Some None
                   else (case residual_loop (flow ctx) cap
                                ((replicate (node_count ctx) False)[SNK ctx := True]) [SNK ctx] of
                           None \<Rightarrow> None
                         | Some can \<Rightarrow> Some (Some (extract_sep ctx del frc can)))))"

subsection \<open>The search\<close>

text \<open>The variables of \<open>solve\<close> that \<open>dfs\<close> updates: \<open>best_area\<close>, \<open>best_walls\<close> and
  the memo \<open>visited_states\<close>.\<close>

record Search =
  cur_area :: int
  cur_walls :: DynamicBitset
  visited_states :: "State set"

partial_function (option) dfs ::
  "Ctx \<Rightarrow> DynamicBitset \<Rightarrow> DynamicBitset \<Rightarrow> int \<Rightarrow> Search \<Rightarrow> Search option"
where
  "dfs ctx del frc kr g =
     (if \<lparr>deleted = del, forced = frc, k_rem = kr\<rparr> \<in> visited_states g then Some g
      else
        (case bfs_reachable ctx del of
           None \<Rightarrow> None
         | Some r1 \<Rightarrow>
            (let g1 = g\<lparr>visited_states :=
                         insert \<lparr>deleted = del, forced = frc, k_rem = kr\<rparr> (visited_states g)\<rparr>;
                 vis_now = fst r1; ub_area = fst (snd r1) in
             if ub_area \<le> cur_area g1 then Some g1
             else if \<not> subset_of frc vis_now then Some g1
             else
               (case min_separator ctx del frc kr of
                  None \<Rightarrow> None
                | Some None \<Rightarrow> Some g1
                | Some (Some sep) \<Rightarrow>
                   (let cand_walls = or_with del sep in
                    case bfs_reachable ctx cand_walls of
                      None \<Rightarrow> None
                    | Some r2 \<Rightarrow>
                       (let area2 = fst (snd r2); escapes2 = snd (snd r2);
                            g2 = (if \<not> escapes2 \<and> area2 > cur_area g1
                                  then g1\<lparr>cur_area := area2, cur_walls := cand_walls\<rparr>
                                  else g1) in
                        if kr = 0 \<or> bempty sep then Some g2
                        else
                          (let v = first_set_bit sep in
                           if v < 0 then Some g2
                           else
                             Option.bind (dfs ctx del (bset frc (nat v)) kr g2)
                               (\<lambda>g3. dfs ctx (bset del (nat v)) frc (kr - 1) g3))))))))"

declare dfs.simps [code]

subsection \<open>\<open>solve\<close>\<close>

text \<open>\<open>HorseMissing\<close> is the \<open>runtime_error\<close> that \<open>solve\<close> throws. \<open>OutOfRange\<close> stands
  for the read of \<open>grid[0]\<close> on a grid with no rows, the first thing \<open>solve\<close> does after
  taking \<open>R\<close>: the source has no defined behaviour there, and both drivers reject such a
  grid before they call \<open>solve\<close>.\<close>

datatype error = HorseMissing | OutOfRange

record SolveResult =
  best_area :: int
  walls :: "(int \<times> int) list"

text \<open>Everything \<open>solve\<close> builds from the grid and the horse before the search.\<close>

definition build ::
  "int \<Rightarrow> string list \<Rightarrow> int \<Rightarrow> int \<Rightarrow> int \<times> int \<Rightarrow> (Ctx \<times> (int \<times> int) list) option" where
  "build k grid R C h =
     (case index_cells grid R C (Map.empty(key (fst h) (snd h) \<mapsto> 0)) [h] [h] of
        None \<Rightarrow> None
      | Some (idx_of, coords) \<Rightarrow>
          Some (mk_ctx k (mk_adj idx_of coords) (mk_wallable grid coords)
                  (mk_boundary R C coords), coords))"

definition search :: "int \<Rightarrow> Ctx \<Rightarrow> Search option" where
  "search k ctx =
     dfs ctx (init (N ctx)) (bset (init (N ctx)) horse_idx) k
       \<lparr>cur_area = 0, cur_walls = init (N ctx), visited_states = {}\<rparr>"

definition solve :: "int \<Rightarrow> string list \<Rightarrow> (error + SolveResult) option" where
  "solve k grid =
     (if grid = [] then Some (Inl OutOfRange)
      else
        let R = int (length grid); C = int (length (grid ! 0)) in
        case find_horse grid C (map int [0..<nat R]) of
          None \<Rightarrow> Some (Inl HorseMissing)
        | Some h \<Rightarrow>
            (case build k grid R C h of
               None \<Rightarrow> None
             | Some (ctx, coords) \<Rightarrow>
                 if test (boundary ctx) horse_idx
                 then Some (Inr \<lparr>best_area = 0, walls = []\<rparr>)
                 else (case search k ctx of
                         None \<Rightarrow> None
                       | Some g \<Rightarrow>
                           Some (Inr \<lparr>best_area = cur_area g,
                                      walls = sort (map (\<lambda>i. coords ! i) (set_bits (cur_walls g)))\<rparr>))))"

section \<open>Predicates and invariants of the proofs\<close>

definition in_grid :: "int \<Rightarrow> int \<Rightarrow> int \<times> int \<Rightarrow> bool" where
  "in_grid R C p = (0 \<le> fst p \<and> fst p < R \<and> 0 \<le> snd p \<and> snd p < C)"

definition nb :: "int \<times> int \<Rightarrow> nat \<Rightarrow> int \<times> int" where
  "nb p di = (fst p + drs ! di, snd p + dcs ! di)"

definition adj4 :: "int \<times> int \<Rightarrow> int \<times> int \<Rightarrow> bool" where
  "adj4 p q = (\<exists>di<4. q = nb p di)"

definition open_at :: "string list \<Rightarrow> int \<times> int \<Rightarrow> bool" where
  "open_at grid p = is_open_cell (cell_at grid (fst p) (snd p))"

definition pkey :: "int \<times> int \<Rightarrow> int" where
  "pkey p = key (fst p) (snd p)"

definition idx_inv ::
  "string list \<Rightarrow> int \<Rightarrow> int \<Rightarrow> (int \<rightharpoonup> nat) \<Rightarrow> (int \<times> int) list \<Rightarrow> bool" where
  "idx_inv grid R C idx_of coords =
     (distinct coords \<and> coords \<noteq> [] \<and>
      (\<forall>p \<in> set coords. in_grid R C p) \<and>
      (\<forall>i. 0 < i \<and> i < length coords \<longrightarrow> open_at grid (coords ! i)) \<and>
      (\<forall>kk. idx_of kk \<noteq> None \<longrightarrow> (\<exists>p \<in> set coords. kk = pkey p)) \<and>
      (\<forall>i < length coords. idx_of (pkey (coords ! i)) = Some i) \<and>
      (\<forall>i. 0 < i \<and> i < length coords \<longrightarrow> (\<exists>j < i. adj4 (coords ! j) (coords ! i))))"

definition todo :: "int \<Rightarrow> int \<Rightarrow> (int \<times> int) list \<Rightarrow> nat" where
  "todo R C coords = card ({p. in_grid R C p} - set coords)"

definition closed_at :: "string list \<Rightarrow> int \<Rightarrow> int \<Rightarrow> (int \<times> int) list \<Rightarrow> int \<times> int \<Rightarrow> bool" where
  "closed_at grid R C coords p =
     (\<forall>q. adj4 p q \<and> in_grid R C q \<and> open_at grid q \<longrightarrow> q \<in> set coords)"

definition bits :: "DynamicBitset \<Rightarrow> nat set" where
  "bits b = {i. i < length b \<and> b ! i}"

definition graph_ok ::
  "string list \<Rightarrow> int \<Rightarrow> int \<Rightarrow> (int \<times> int) list \<Rightarrow> nat list list \<Rightarrow> bool list \<Rightarrow> DynamicBitset \<Rightarrow> bool"
where
  "graph_ok grid R C coords ga wl bd =
     (length ga = length coords \<and> length wl = length coords \<and> length bd = length coords \<and>
      (\<forall>i < length coords. set (ga ! i) = {j. j < length coords \<and> adj4 (coords ! i) (coords ! j)}) \<and>
      (\<forall>i < length coords. wl ! i \<longleftrightarrow> cell_at grid (fst (coords ! i)) (snd (coords ! i)) = CHR ''.'') \<and>
      bits bd = {i. i < length coords \<and> on_boundary R C (coords ! i)})"

definition closed_under :: "nat list list \<Rightarrow> DynamicBitset \<Rightarrow> DynamicBitset \<Rightarrow> nat \<Rightarrow> bool" where
  "closed_under ga blocked vis u = (\<forall>v \<in> set (ga ! u). \<not> test blocked v \<longrightarrow> v \<in> bits vis)"

definition adj_ok :: "nat list list \<Rightarrow> bool" where
  "adj_ok ga = (\<forall>u < length ga. \<forall>v \<in> set (ga ! u). v < length ga)"

definition ft_wf :: "FlowTemplate \<Rightarrow> bool" where
  "ft_wf ft =
     (length (adj ft) = nn ft \<and> length (in_adj ft) = nn ft \<and>
      length (frm ft) = length (to ft) \<and> length (rev_of ft) = length (to ft) \<and>
      length (base_cap ft) = length (to ft) \<and>
      (\<forall>e < length (to ft). to ft ! e < nn ft \<and> frm ft ! e < nn ft \<and>
          rev_of ft ! e < length (to ft) \<and> rev_of ft ! (rev_of ft ! e) = e \<and>
          rev_of ft ! e \<noteq> e \<and>
          frm ft ! (rev_of ft ! e) = to ft ! e \<and> to ft ! (rev_of ft ! e) = frm ft ! e) \<and>
      (\<forall>u < nn ft. \<forall>e \<in> set (adj ft ! u). e < length (to ft) \<and> frm ft ! e = u) \<and>
      (\<forall>v < nn ft. set (in_adj ft ! v) = {e. e < length (to ft) \<and> to ft ! e = v}))"

definition ft_ext :: "FlowTemplate \<Rightarrow> FlowTemplate \<Rightarrow> bool" where
  "ft_ext ft ft' =
     (nn ft' = nn ft \<and> length (to ft) \<le> length (to ft') \<and>
      (\<forall>e < length (to ft). to ft' ! e = to ft ! e \<and> frm ft' ! e = frm ft ! e \<and>
          base_cap ft' ! e = base_cap ft ! e))"

definition net_ok :: "nat \<Rightarrow> int \<Rightarrow> nat \<times> DynamicBitset \<Rightarrow> FlowTemplate \<Rightarrow> bool" where
  "net_ok nc cinf snk ft =
     (ft_wf ft \<and> nn ft = nc \<and>
      (0 \<le> cinf \<longrightarrow> (\<forall>e < length (to ft). 0 \<le> base_cap ft ! e)) \<and>
      (\<forall>e < length (to ft). to ft ! e = fst snk \<longrightarrow> (\<exists>i \<in> bits (snd snk). frm ft ! e = 2 * i + 1)))"

text \<open>Loop 1.\<close>

definition cell_cap :: "bool list \<Rightarrow> int \<Rightarrow> nat \<Rightarrow> int" where
  "cell_cap wl cinf i = (if i = horse_idx \<or> \<not> wl ! i then cinf else 1)"

definition cell_step :: "bool list \<Rightarrow> int \<Rightarrow> nat \<Rightarrow> FlowTemplate \<times> nat list \<Rightarrow> FlowTemplate \<times> nat list" where
  "cell_step wl cinf i s =
     (snd (add_edge (fst s) (2 * i) (2 * i + 1) (cell_cap wl cinf i)), (snd s)[i := length (to (fst s))])"

definition cells_done :: "bool list \<Rightarrow> int \<Rightarrow> nat \<Rightarrow> FlowTemplate \<Rightarrow> bool" where
  "cells_done wl cinf j ft =
     (2 * j \<le> length (to ft) \<and>
      (\<forall>i < j. frm ft ! (2 * i) = 2 * i \<and> to ft ! (2 * i) = 2 * i + 1 \<and>
                base_cap ft ! (2 * i) = cell_cap wl cinf i))"

text \<open>Loops 2 to 4 keep the network well formed and extend it.\<close>

definition grows :: "nat \<Rightarrow> int \<Rightarrow> nat \<times> DynamicBitset \<Rightarrow> FlowTemplate \<Rightarrow> FlowTemplate \<Rightarrow> bool" where
  "grows nc cinf snk ft ft' =
     (net_ok nc cinf snk ft' \<and> ft_ext ft ft' \<and> even (length (to ft')))"

definition src_step :: "nat \<Rightarrow> int \<Rightarrow> nat \<Rightarrow> FlowTemplate \<times> nat list \<Rightarrow> FlowTemplate \<times> nat list" where
  "src_step src cinf i s =
     (snd (add_edge (fst s) src (2 * i + 1) (if i = horse_idx then cinf else 0)),
      (snd s)[i := length (to (fst s))])"

definition ctx_ok :: "int \<Rightarrow> Ctx \<Rightarrow> bool" where
  "ctx_ok k ctx =
     (length (gadj ctx) = N ctx \<and> adj_ok (gadj ctx) \<and> length (wallable ctx) = N ctx \<and>
      length (boundary ctx) = N ctx \<and> INFTY ctx = k + 1 \<and> node_count ctx = 2 * N ctx + 2 \<and>
      SRC ctx = 2 * N ctx \<and> SNK ctx = 2 * N ctx + 1 \<and>
      net_ok (2 * N ctx + 2) (k + 1) (2 * N ctx + 1, boundary ctx) (flow ctx) \<and>
      cells_done (wallable ctx) (k + 1) (N ctx) (flow ctx) \<and>
      length (cell_edge_idx ctx) = N ctx \<and> (\<forall>i < N ctx. cell_edge_idx ctx ! i = 2 * i) \<and>
      length (src_edge_idx ctx) = N ctx \<and> (\<forall>i < N ctx. 2 * N ctx \<le> src_edge_idx ctx ! i))"

text \<open>What \<open>build\<close> returns.\<close>

definition built ::
  "string list \<Rightarrow> int \<Rightarrow> int \<Rightarrow> int \<times> int \<Rightarrow> int \<Rightarrow> Ctx \<Rightarrow> (int \<times> int) list \<Rightarrow> bool" where
  "built grid R C h k ctx coords =
     (ctx_ok k ctx \<and> N ctx = length coords \<and> coords ! 0 = h \<and>
      (\<exists>idx_of. idx_inv grid R C idx_of coords) \<and>
      (\<forall>p \<in> set coords. closed_at grid R C coords p) \<and>
      graph_ok grid R C coords (gadj ctx) (wallable ctx) (boundary ctx))"

definition outflow :: "FlowTemplate \<Rightarrow> int list \<Rightarrow> int list \<Rightarrow> nat \<Rightarrow> int" where
  "outflow ft cap0 cap u = (\<Sum>e \<in> {e. e < length (to ft) \<and> frm ft ! e = u}. cap0 ! e - cap ! e)"

text \<open>The parent pointers lead from a discovered node back to the source.\<close>

inductive on_tree :: "FlowTemplate \<Rightarrow> nat \<Rightarrow> int list \<Rightarrow> nat \<Rightarrow> bool"
  for ft :: FlowTemplate and s :: nat and parent :: "int list"
where
  root: "on_tree ft s parent s"
| child: "v \<noteq> s \<Longrightarrow> 0 \<le> parent ! v \<Longrightarrow> nat (parent ! v) < length (to ft) \<Longrightarrow>
          to ft ! nat (parent ! v) = v \<Longrightarrow> on_tree ft s parent (frm ft ! nat (parent ! v)) \<Longrightarrow>
          on_tree ft s parent v"

definition pairs_eq :: "FlowTemplate \<Rightarrow> int list \<Rightarrow> int list \<Rightarrow> bool" where
  "pairs_eq ft cap0 cap =
     (length cap = length (to ft) \<and>
      (\<forall>e < length (to ft). cap ! e + cap ! (rev_of ft ! e) = cap0 ! e + cap0 ! (rev_of ft ! e)))"

definition undisc :: "int list \<Rightarrow> nat set" where
  "undisc parent = {v. v < length parent \<and> parent ! v = -1}"

definition tree_inv :: "FlowTemplate \<Rightarrow> nat \<Rightarrow> int list \<Rightarrow> bool" where
  "tree_inv ft s parent =
     (length parent = nn ft \<and> s < nn ft \<and> parent ! s \<noteq> -1 \<and>
      (\<forall>v < nn ft. parent ! v \<noteq> -1 \<longrightarrow> on_tree ft s parent v))"

definition disc_q :: "FlowTemplate \<Rightarrow> int list \<Rightarrow> nat list \<Rightarrow> bool" where
  "disc_q ft parent q = (\<forall>v \<in> set q. v < nn ft \<and> parent ! v \<noteq> -1)"

definition flow_ok :: "FlowTemplate \<Rightarrow> int list \<Rightarrow> int list \<Rightarrow> nat \<Rightarrow> nat \<Rightarrow> int \<Rightarrow> bool" where
  "flow_ok ft cap0 cap s t f =
     (pairs_eq ft cap0 cap \<and>
      (\<forall>u < nn ft. u \<noteq> s \<and> u \<noteq> t \<longrightarrow> outflow ft cap0 cap u = 0) \<and>
      outflow ft cap0 cap s = f)"

definition res_closed :: "FlowTemplate \<Rightarrow> int list \<Rightarrow> bool list \<Rightarrow> nat \<Rightarrow> bool" where
  "res_closed ft cap can v =
     (\<forall>e < length (to ft). to ft ! e = v \<and> cap ! e > 0 \<longrightarrow> frm ft ! e \<in> bits can)"

definition cap_rel :: "nat \<Rightarrow> nat set \<Rightarrow> int \<Rightarrow> int list \<Rightarrow> int list \<Rightarrow> bool" where
  "cap_rel cN touched cinf cap cap' =
     (length cap' = length cap \<and>
      (\<forall>i < cN. i \<notin> touched \<longrightarrow> cap' ! (2 * i) = cap ! (2 * i)) \<and>
      (0 \<le> cinf \<and> (\<forall>e < length cap. 0 \<le> cap ! e) \<longrightarrow> (\<forall>e < length cap. 0 \<le> cap' ! e)))"

definition forced_step :: "Ctx \<Rightarrow> DynamicBitset \<Rightarrow> nat \<Rightarrow> bool \<times> int list \<Rightarrow> bool \<times> int list" where
  "forced_step ctx del i s =
     (if test del i then (False, snd s)
      else (fst s, (snd s)[cell_edge_idx ctx ! i := INFTY ctx, src_edge_idx ctx ! i := INFTY ctx]))"

definition st_ok :: "Ctx \<Rightarrow> int \<Rightarrow> DynamicBitset \<Rightarrow> DynamicBitset \<Rightarrow> int \<Rightarrow> bool" where
  "st_ok ctx k del frc kr =
     (length del = N ctx \<and> length frc = N ctx \<and> horse_idx \<in> bits frc \<and> horse_idx \<notin> bits del \<and>
      bits del \<subseteq> {i. i < N ctx \<and> wallable ctx ! i} \<and> bits del \<inter> bits frc = {} \<and>
      kr = k - int (card (bits del)))"

text \<open>The two recursive calls of \<open>dfs\<close> at a state that is not pruned: the branching
  step of the search.\<close>

definition dfs_children :: "Ctx \<Rightarrow> State \<Rightarrow> State list option" where
  "dfs_children ctx st =
     (case min_separator ctx (deleted st) (forced st) (k_rem st) of
        None \<Rightarrow> None
      | Some None \<Rightarrow> Some []
      | Some (Some sep) \<Rightarrow>
          if k_rem st = 0 \<or> bempty sep then Some []
          else (let v = first_set_bit sep in
                if v < 0 then Some []
                else Some [\<lparr>deleted = deleted st, forced = bset (forced st) (nat v), k_rem = k_rem st\<rparr>,
                           \<lparr>deleted = bset (deleted st) (nat v), forced = forced st,
                            k_rem = k_rem st - 1\<rparr>]))"

inductive reach_st :: "Ctx \<Rightarrow> int \<Rightarrow> State \<Rightarrow> bool" for ctx :: Ctx and k :: int where
  start: "reach_st ctx k \<lparr>deleted = init (N ctx), forced = bset (init (N ctx)) horse_idx, k_rem = k\<rparr>"
| branch: "reach_st ctx k st \<Longrightarrow> dfs_children ctx st = Some cs \<Longrightarrow> c \<in> set cs \<Longrightarrow> reach_st ctx k c"

definition g_ok :: "Ctx \<Rightarrow> int \<Rightarrow> Search \<Rightarrow> bool" where
  "g_ok ctx k g =
     (length (cur_walls g) = N ctx \<and>
      bits (cur_walls g) \<subseteq> {i. i < N ctx \<and> wallable ctx ! i} \<and>
      ((cur_area g = 0 \<and> bits (cur_walls g) = {}) \<or>
       (0 < cur_area g \<and> int (card (bits (cur_walls g))) \<le> k \<and>
        (\<exists>vis. bfs_reachable ctx (cur_walls g) = Some (vis, cur_area g, False)))) \<and>
      (\<forall>st \<in> visited_states g. reach_st ctx k st))"

definition dfs_post :: "Ctx \<Rightarrow> int \<Rightarrow> Search \<Rightarrow> Search \<Rightarrow> bool" where
  "dfs_post ctx k g g' =
     (g_ok ctx k g' \<and> visited_states g \<subseteq> visited_states g' \<and> cur_area g \<le> cur_area g')"

definition rows_of :: "string list \<Rightarrow> int list" where
  "rows_of grid = map int [0..<length grid]"

definition width :: "string list \<Rightarrow> int" where
  "width grid = int (length (grid ! 0))"

definition height :: "string list \<Rightarrow> int" where
  "height grid = int (length grid)"

definition solved :: "int \<Rightarrow> string list \<Rightarrow> int \<times> int \<Rightarrow> Ctx \<Rightarrow> (int \<times> int) list \<Rightarrow> bool" where
  "solved k grid h ctx coords =
     (find_horse grid (width grid) (rows_of grid) = Some h \<and>
      build k grid (height grid) (width grid) h = Some (ctx, coords) \<and>
      built grid (height grid) (width grid) h k ctx coords \<and>
      0 < N ctx \<and> \<not> wallable ctx ! horse_idx)"

text \<open>A syntactically valid grid (the input contract): at least one row, rows of one length,
  at least one column, cells among \<open>.\<close>, \<open>#\<close> and \<open>H\<close>, exactly one \<open>H\<close>; the number of
  rows and of columns fit the C++ \<open>int\<close>.\<close>

definition valid_grid :: "string list \<Rightarrow> bool" where
  "valid_grid grid =
     (grid \<noteq> [] \<and> hd grid \<noteq> [] \<and>
      list_all (\<lambda>row. length row = length (hd grid)) grid \<and>
      list_all (list_all (\<lambda>ch. ch = CHR ''.'' \<or> ch = CHR ''#'' \<or> ch = CHR ''H'')) grid \<and>
      length (filter (\<lambda>ch. ch = CHR ''H'') (concat grid)) = 1 \<and>
      length grid < 2 ^ 31 \<and> length (hd grid) < 2 ^ 31)"

text \<open>The rendering of a result (\<open>print_ans\<close>, \<open>buildSolvedGrid\<close>): the walls are
  written into a copy of the grid as \<open>X\<close>.\<close>

definition put_wall :: "string list \<Rightarrow> int \<times> int \<Rightarrow> string list" where
  "put_wall g rc = g[nat (fst rc) := (g ! nat (fst rc))[nat (snd rc) := CHR ''X'']]"

definition overlay :: "string list \<Rightarrow> (int \<times> int) list \<Rightarrow> string list" where
  "overlay grid ws = fold (\<lambda>rc g. put_wall g rc) ws grid"

text \<open>The cells a flood fill may enter when it treats \<open>#\<close> and \<open>X\<close> as blocked.\<close>

definition passable :: "string list \<Rightarrow> int \<times> int \<Rightarrow> bool" where
  "passable g q = (cell_at g (fst q) (snd q) \<noteq> CHR ''#'' \<and> cell_at g (fst q) (snd q) \<noteq> CHR ''X'')"

text \<open>The cells a flood fill over 4-neighbours reaches from \<open>h\<close> inside an \<open>R\<close> by \<open>C\<close>
  grid, entering only cells that satisfy \<open>pass\<close>.\<close>

inductive flood :: "int \<Rightarrow> int \<Rightarrow> (int \<times> int \<Rightarrow> bool) \<Rightarrow> int \<times> int \<Rightarrow> int \<times> int \<Rightarrow> bool"
  for R :: int and C :: int and pass :: "int \<times> int \<Rightarrow> bool" and h :: "int \<times> int"
where
  start: "flood R C pass h h"
| step: "flood R C pass h p \<Longrightarrow> adj4 p q \<Longrightarrow> in_grid R C q \<Longrightarrow> pass q \<Longrightarrow> flood R C pass h q"

definition rect :: "string list \<Rightarrow> nat \<Rightarrow> nat \<Rightarrow> bool" where
  "rect g r c = (length g = r \<and> 0 < r \<and> (\<forall>i < r. length (g ! i) = c))"

section \<open>Properties of the embedding\<close>

lemma key_nonneg: "0 \<le> c \<Longrightarrow> c < 2 ^ 32 \<Longrightarrow> key r c = r * 2 ^ 32 + c"
proof -
  assume c: "0 \<le> c" "c < 2 ^ 32"
  have tb: "take_bit 32 c = c" using c by (simp add: take_bit_int_eq_self)
  have "push_bit 32 r AND take_bit 32 c = 0"
    by (rule bit_eqI) (auto simp: bit_simps)
  then have "push_bit 32 r XOR c = push_bit 32 r OR c"
    using tb by (metis disjunctive_xor_eq_or)
  also have "\<dots> = push_bit 32 r + c"
    using \<open>push_bit 32 r AND take_bit 32 c = 0\<close> tb by (metis disjunctive_add_eq_or)
  finally show ?thesis by (simp add: key_def push_bit_eq_mult)
qed

lemma key_neg: "key r (-1) = - (r * 2 ^ 32) - 1"
  by (simp add: key_def not_int_def push_bit_eq_mult)

lemma split_unique:
  fixes m :: int
  assumes "r * m + c = r' * m + c'" "0 \<le> c" "c < m" "0 \<le> c'" "c' < m"
  shows "r = r' \<and> c = c'"
proof -
  have "(c + r * m) mod m = (c' + r' * m) mod m" using assms(1) by (simp add: add.commute)
  then have 1: "c = c'" using assms by simp
  have "(c + r * m) div m = (c' + r' * m) div m" using assms(1) by (simp add: add.commute)
  then have "r = r'" using assms by simp
  with 1 show ?thesis by simp
qed

lemma split_neg:
  fixes m :: int
  assumes "- (r * m) - 1 = r' * m + c'" "0 \<le> c'" "c' + 1 < m"
  shows False
proof -
  have "(- r - r') * m = c' + 1" using assms(1) by (simp add: algebra_simps)
  then have "m dvd c' + 1" by (metis dvd_triv_right)
  then show False using assms(2,3) by (simp add: zdvd_not_zless)
qed

lemma key_inj:
  assumes "key r c = key r' c'" "-1 \<le> c" "c < 2 ^ 31" "0 \<le> c'" "c' < 2 ^ 31"
  shows "r = r' \<and> c = c'"
proof (cases "c = -1")
  case True
  have "- (r * 2 ^ 32) - 1 = r' * 2 ^ 32 + c'"
    using assms True by (simp add: key_neg key_nonneg)
  moreover have "c' + 1 < (2 ^ 32 :: int)" using assms(5) by simp
  ultimately have False using assms(4) split_neg [of r "2 ^ 32" r' c'] by blast
  then show ?thesis ..
next
  case False
  then have c: "0 \<le> c" "c < 2 ^ 32" using assms by auto
  have c': "0 \<le> c'" "c' < 2 ^ 32" using assms by auto
  have "r * 2 ^ 32 + c = r' * 2 ^ 32 + c'"
    using assms c c' by (simp add: key_nonneg)
  then show ?thesis using c c' by (rule split_unique)
qed

lemma adj4I: "di < 4 \<Longrightarrow> adj4 p (nb p di)"
  unfolding adj4_def by auto

lemma pkey_inj:
  assumes "C \<le> 2 ^ 31" "in_grid R C p" "pkey q = pkey p" "-1 \<le> snd q" "snd q \<le> C"
  shows "q = p"
proof -
  have "snd q < 2 ^ 31 \<or> snd q = C" using assms by auto
  then show ?thesis
  proof
    assume "snd q < 2 ^ 31"
    then have "fst q = fst p \<and> snd q = snd p"
      using assms key_inj [of "fst q" "snd q" "fst p" "snd p"]
      by (auto simp: pkey_def in_grid_def)
    then show ?thesis by (simp add: prod_eq_iff)
  next
    assume e: "snd q = C"
    have sp: "0 \<le> snd p" "snd p < 2 ^ 32" using assms by (auto simp: in_grid_def)
    have sq: "0 \<le> snd q" "snd q < 2 ^ 32" using assms e by (auto simp: in_grid_def)
    have "fst q * 2 ^ 32 + snd q = fst p * 2 ^ 32 + snd p"
      using assms(3) sp sq by (simp add: pkey_def key_nonneg)
    then have "fst q = fst p \<and> snd q = snd p" using sq sp by (rule split_unique)
    then show ?thesis by (simp add: prod_eq_iff)
  qed
qed

lemma idx_inv_lookup:
  assumes "idx_inv grid R C idx_of coords" "C \<le> 2 ^ 31" "-1 \<le> snd q" "snd q \<le> C"
  shows "idx_of (pkey q) = Some i \<longleftrightarrow> i < length coords \<and> coords ! i = q"
proof
  assume a: "idx_of (pkey q) = Some i"
  then obtain p where p: "p \<in> set coords" "pkey q = pkey p"
    using assms(1) unfolding idx_inv_def by (metis option.distinct(1))
  then have "in_grid R C p" using assms(1) by (simp add: idx_inv_def)
  then have "q = p" using pkey_inj assms p by blast
  then obtain j where j: "j < length coords" "coords ! j = q"
    using p by (auto simp: in_set_conv_nth)
  then have "idx_of (pkey q) = Some j" using assms(1) unfolding idx_inv_def by blast
  with a j show "i < length coords \<and> coords ! i = q" by simp
next
  assume "i < length coords \<and> coords ! i = q"
  then show "idx_of (pkey q) = Some i" using assms(1) unfolding idx_inv_def by blast
qed

lemma idx_inv_None:
  assumes "idx_inv grid R C idx_of coords" "C \<le> 2 ^ 31" "-1 \<le> snd q" "snd q \<le> C"
  shows "idx_of (pkey q) = None \<longleftrightarrow> q \<notin> set coords"
proof -
  have "q \<in> set coords \<longleftrightarrow> (\<exists>i. idx_of (pkey q) = Some i)"
    using idx_inv_lookup [OF assms] by (auto simp: in_set_conv_nth)
  then show ?thesis by auto
qed

lemma idx_inv_add:
  assumes inv: "idx_inv grid R C idx_of coords" and C: "C \<le> 2 ^ 31"
    and p: "p \<in> set coords" and di: "di < 4"
    and g: "in_grid R C (nb p di)" and o: "open_at grid (nb p di)"
    and n: "idx_of (pkey (nb p di)) = None"
  shows "idx_inv grid R C (idx_of(pkey (nb p di) \<mapsto> length coords)) (coords @ [nb p di])"
proof -
  let ?q = "nb p di"
  have sq: "-1 \<le> snd ?q" "snd ?q \<le> C" using g by (auto simp: in_grid_def)
  have nin: "?q \<notin> set coords" using idx_inv_None [OF inv C sq] n by simp
  obtain j where j: "j < length coords" "coords ! j = p" using p by (auto simp: in_set_conv_nth)
  have ne: "pkey (coords ! i) \<noteq> pkey ?q" if "i < length coords" for i
  proof
    assume e: "pkey (coords ! i) = pkey ?q"
    have "in_grid R C (coords ! i)" using inv that by (simp add: idx_inv_def)
    then have "?q = coords ! i" using pkey_inj [OF C _ _ sq] e by metis
    with nin that show False by (metis nth_mem)
  qed
  show ?thesis unfolding idx_inv_def
  proof (intro conjI allI impI ballI)
    show "distinct (coords @ [?q])" using inv nin by (simp add: idx_inv_def)
    show "coords @ [?q] \<noteq> []" by simp
    show "in_grid R C x" if "x \<in> set (coords @ [?q])" for x
      using that inv g by (auto simp: idx_inv_def)
    show "open_at grid ((coords @ [?q]) ! i)" if "0 < i \<and> i < length (coords @ [?q])" for i
      using that inv o by (cases "i < length coords") (auto simp: idx_inv_def nth_append)
    show "\<exists>x \<in> set (coords @ [?q]). kk = pkey x"
      if "(idx_of(pkey ?q \<mapsto> length coords)) kk \<noteq> None" for kk
      using that inv by (cases "kk = pkey ?q") (auto simp: idx_inv_def)
    show "(idx_of(pkey ?q \<mapsto> length coords)) (pkey ((coords @ [?q]) ! i)) = Some i"
      if "i < length (coords @ [?q])" for i
    proof (cases "i < length coords")
      case True
      then show ?thesis using ne [OF True] inv by (simp add: idx_inv_def nth_append)
    next
      case False
      then have "i = length coords" using that by simp
      then show ?thesis by simp
    qed
    show "\<exists>j<i. adj4 ((coords @ [?q]) ! j) ((coords @ [?q]) ! i)"
      if "0 < i \<and> i < length (coords @ [?q])" for i
    proof (cases "i < length coords")
      case True
      have "\<forall>i. 0 < i \<and> i < length coords \<longrightarrow> (\<exists>j < i. adj4 (coords ! j) (coords ! i))"
        using inv by (simp add: idx_inv_def)
      then have "\<exists>j < i. adj4 (coords ! j) (coords ! i)"
        using that True by simp
      then obtain j' where jd: "j' < i" "adj4 (coords ! j') (coords ! i)"
        by auto
      moreover have "(coords @ [?q]) ! j' = coords ! j'" "(coords @ [?q]) ! i = coords ! i"
        using jd True by (simp_all add: nth_append)
      ultimately have "j' < i \<and> adj4 ((coords @ [?q]) ! j') ((coords @ [?q]) ! i)" by simp
      then show ?thesis by (rule exI)
    next
      case False
      then have i: "i = length coords" using that by simp
      have "(coords @ [?q]) ! j = p" "(coords @ [?q]) ! i = ?q"
        using j i by (simp_all add: nth_append)
      then have "j < i \<and> adj4 ((coords @ [?q]) ! j) ((coords @ [?q]) ! i)"
        using j i adj4I [OF di, of p] by simp
      then show ?thesis by (rule exI)
    qed
  qed
qed

lemma idx_inv_in_grid: "idx_inv grid R C idx_of coords \<Longrightarrow> p \<in> set coords \<Longrightarrow> in_grid R C p"
  by (simp add: idx_inv_def)

lemma idx_inv_distinct: "idx_inv grid R C idx_of coords \<Longrightarrow> distinct coords"
  by (simp add: idx_inv_def)

lemma discover_inv:
  assumes "idx_inv grid R C idx_of coords" "C \<le> 2 ^ 31" "(r, c) \<in> set coords"
    and "\<forall>di \<in> set dis. di < 4"
  shows "\<exists>idx_of' new. discover grid R C r c dis (idx_of, coords, q) = (idx_of', coords @ new, q @ new)
           \<and> idx_inv grid R C idx_of' (coords @ new)
           \<and> (\<forall>di \<in> set dis. in_grid R C (nb (r, c) di) \<and> open_at grid (nb (r, c) di)
                  \<longrightarrow> nb (r, c) di \<in> set (coords @ new))"
  using assms
proof (induction dis arbitrary: idx_of coords q)
  case Nil
  then show ?case by (intro exI [of _ idx_of] exI [of _ "[]"]) simp
next
  case (Cons di dis)
  let ?q = "nb (r, c) di"
  have di: "di < 4" and dis: "\<forall>d \<in> set dis. d < 4" using Cons.prems(4) by simp_all
  have k: "key (r + drs ! di) (c + dcs ! di) = pkey ?q" by (simp add: pkey_def nb_def)
  have ig: "in_grid R C ?q \<longleftrightarrow>
      \<not> (r + drs ! di < 0 \<or> r + drs ! di \<ge> R \<or> c + dcs ! di < 0 \<or> c + dcs ! di \<ge> C)"
    by (auto simp: in_grid_def nb_def)
  have op: "open_at grid ?q \<longleftrightarrow> is_open_cell (cell_at grid (r + drs ! di) (c + dcs ! di))"
    by (simp add: open_at_def nb_def)
  show ?case
  proof (cases "in_grid R C ?q \<and> open_at grid ?q \<and> idx_of (pkey ?q) = None")
    case True
    have inv': "idx_inv grid R C (idx_of(pkey ?q \<mapsto> length coords)) (coords @ [?q])"
      using idx_inv_add [OF Cons.prems(1,2,3) di] True by simp
    have mem: "(r, c) \<in> set (coords @ [?q])" using Cons.prems(3) by simp
    obtain idx_of' new where r:
      "discover grid R C r c dis (idx_of(pkey ?q \<mapsto> length coords), coords @ [?q], q @ [?q])
         = (idx_of', (coords @ [?q]) @ new, (q @ [?q]) @ new)"
      "idx_inv grid R C idx_of' ((coords @ [?q]) @ new)"
      "\<forall>d \<in> set dis. in_grid R C (nb (r, c) d) \<and> open_at grid (nb (r, c) d)
                  \<longrightarrow> nb (r, c) d \<in> set ((coords @ [?q]) @ new)"
      using Cons.IH [OF inv' Cons.prems(2) mem dis, of "q @ [?q]"] by blast
    have e: "discover grid R C r c (di # dis) (idx_of, coords, q)
        = discover grid R C r c dis (idx_of(pkey ?q \<mapsto> length coords), coords @ [?q], q @ [?q])"
    proof -
      have c1: "\<not> (r + drs ! di < 0 \<or> r + drs ! di \<ge> R \<or> c + dcs ! di < 0 \<or> c + dcs ! di \<ge> C)"
        using True ig by simp
      have c2: "is_open_cell (cell_at grid (r + drs ! di) (c + dcs ! di))"
        using True op by simp
      have c3: "idx_of (key (r + drs ! di) (c + dcs ! di)) = None"
        using True k by simp
      show ?thesis using c1 c2 c3 by (simp add: Let_def nb_def pkey_def)
    qed
    show ?thesis
      apply (rule exI [of _ idx_of'])
      apply (rule exI [of _ "?q # new"])
      using r e by simp
  next
    case False
    have e: "discover grid R C r c (di # dis) (idx_of, coords, q)
        = discover grid R C r c dis (idx_of, coords, q)"
    proof -
      have "(r + drs ! di < 0 \<or> r + drs ! di \<ge> R \<or> c + dcs ! di < 0 \<or> c + dcs ! di \<ge> C)
          \<or> \<not> is_open_cell (cell_at grid (r + drs ! di) (c + dcs ! di))
          \<or> idx_of (key (r + drs ! di) (c + dcs ! di)) \<noteq> None"
        using False ig op k by auto
      then show ?thesis by (auto simp: Let_def)
    qed
    obtain idx_of' new where r:
      "discover grid R C r c dis (idx_of, coords, q) = (idx_of', coords @ new, q @ new)"
      "idx_inv grid R C idx_of' (coords @ new)"
      "\<forall>d \<in> set dis. in_grid R C (nb (r, c) d) \<and> open_at grid (nb (r, c) d)
                  \<longrightarrow> nb (r, c) d \<in> set (coords @ new)"
      using Cons.IH [OF Cons.prems(1,2,3) dis, of q] by blast
    have "?q \<in> set coords" if "in_grid R C ?q" "open_at grid ?q"
    proof -
      have "idx_of (pkey ?q) \<noteq> None" using False that by simp
      moreover have "-1 \<le> snd ?q" "snd ?q \<le> C" using that(1) by (auto simp: in_grid_def)
      ultimately show ?thesis using idx_inv_None [OF Cons.prems(1,2), of ?q] by simp
    qed
    then show ?thesis
      apply (intro exI [of _ idx_of'] exI [of _ new])
      using r e by auto
  qed
qed

lemma finite_grid: "finite {p. in_grid R C p}"
proof -
  have "{p. in_grid R C p} \<subseteq> {0..<R} \<times> {0..<C}"
    by (auto simp: in_grid_def)
  then show ?thesis by (rule finite_subset) simp
qed

lemma todo_append:
  assumes "distinct (coords @ new)" "\<forall>p \<in> set new. in_grid R C p"
  shows "todo R C (coords @ new) + length new = todo R C coords"
proof -
  let ?G = "{p. in_grid R C p} - set coords"
  have sub: "set new \<subseteq> ?G" using assms by auto
  have "{p. in_grid R C p} - set (coords @ new) = ?G - set new" by auto
  then have "todo R C (coords @ new) = card (?G - set new)" by (simp add: todo_def)
  also have "\<dots> = card ?G - card (set new)"
    using sub by (intro card_Diff_subset) simp_all
  finally have 1: "todo R C (coords @ new) = card ?G - length new"
    using assms(1) by (simp add: distinct_card)
  have "card (set new) \<le> card ?G" using sub finite_grid by (intro card_mono) simp_all
  then have "length new \<le> card ?G" using assms(1) by (simp add: distinct_card)
  with 1 show ?thesis by (simp add: todo_def)
qed

lemma closed_at_mono: "closed_at grid R C coords p \<Longrightarrow> closed_at grid R C (coords @ new) p"
  by (auto simp: closed_at_def)

lemma index_cells_total:
  assumes "idx_inv grid R C idx_of coords" "C \<le> 2 ^ 31" "set q \<subseteq> set coords"
    and "\<forall>p \<in> set coords - set q. closed_at grid R C coords p"
  shows "\<exists>idx_of' new. index_cells grid R C idx_of coords q = Some (idx_of', coords @ new)
           \<and> idx_inv grid R C idx_of' (coords @ new)
           \<and> (\<forall>p \<in> set (coords @ new). closed_at grid R C (coords @ new) p)"
  using assms
proof (induction "todo R C coords + length q" arbitrary: idx_of coords q rule: less_induct)
  case less
  show ?case
  proof (cases q)
    case Nil
    then have "index_cells grid R C idx_of coords q = Some (idx_of, coords @ [])"
      by (subst index_cells.simps) simp
    then show ?thesis using less.prems Nil by (intro exI [of _ idx_of] exI [of _ "[]"]) simp
  next
    case (Cons p q1)
    obtain r c where p: "p = (r, c)" by (cases p)
    have pin: "(r, c) \<in> set coords" using less.prems(3) Cons p by simp
    obtain idx1 new where d:
      "discover grid R C r c [0..<4] (idx_of, coords, q1) = (idx1, coords @ new, q1 @ new)"
      "idx_inv grid R C idx1 (coords @ new)"
      "\<forall>di \<in> set [0..<4]. in_grid R C (nb (r, c) di) \<and> open_at grid (nb (r, c) di)
                  \<longrightarrow> nb (r, c) di \<in> set (coords @ new)"
      using discover_inv [OF less.prems(1,2) pin, of "[0..<4]" q1] by auto
    have unf: "index_cells grid R C idx_of coords q = index_cells grid R C idx1 (coords @ new) (q1 @ new)"
      using Cons p d(1) by (subst index_cells.simps) simp
    have dist: "distinct (coords @ new)" using d(2) by (rule idx_inv_distinct)
    have ing: "\<forall>x \<in> set new. in_grid R C x" using d(2) idx_inv_in_grid by fastforce
    have m: "todo R C (coords @ new) + length (q1 @ new) < todo R C coords + length q"
      using todo_append [OF dist ing] Cons by simp
    have sub: "set (q1 @ new) \<subseteq> set (coords @ new)" using less.prems(3) Cons by auto
    have cp: "closed_at grid R C (coords @ new) p"
      unfolding closed_at_def adj4_def using d(3) p by auto
    have cl: "\<forall>x \<in> set (coords @ new) - set (q1 @ new). closed_at grid R C (coords @ new) x"
    proof
      fix x assume x: "x \<in> set (coords @ new) - set (q1 @ new)"
      show "closed_at grid R C (coords @ new) x"
      proof (cases "x = p")
        case True
        then show ?thesis using cp by simp
      next
        case False
        then have "x \<in> set coords - set q" using x Cons by auto
        then show ?thesis using less.prems(4) closed_at_mono by blast
      qed
    qed
    obtain idx2 new2 where r:
      "index_cells grid R C idx1 (coords @ new) (q1 @ new) = Some (idx2, (coords @ new) @ new2)"
      "idx_inv grid R C idx2 ((coords @ new) @ new2)"
      "\<forall>x \<in> set ((coords @ new) @ new2). closed_at grid R C ((coords @ new) @ new2) x"
      using less.hyps [OF m d(2) less.prems(2) sub cl] by blast
    show ?thesis
      apply (intro exI [of _ idx2] exI [of _ "new @ new2"])
      using r unf by simp
  qed
qed

lemma length_init [simp]: "length (init m) = m" by (simp add: init_def)

lemma length_bset [simp]: "length (bset b i) = length b" by (simp add: bset_def)

lemma bits_init [simp]: "bits (init m) = {}" by (auto simp: bits_def init_def)

lemma bits_bset: "i < length b \<Longrightarrow> bits (bset b i) = insert i (bits b)"
  by (auto simp: bits_def bset_def nth_list_update)

lemma test_bits: "i < length b \<Longrightarrow> test b i \<longleftrightarrow> i \<in> bits b"
  by (simp add: bits_def test_def)

lemma finite_bits [simp]: "finite (bits b)" by (simp add: bits_def)

lemma bits_less: "i \<in> bits b \<Longrightarrow> i < length b" by (simp add: bits_def)

lemma set_set_bits [simp]: "set (set_bits b) = bits b"
  by (auto simp: set_bits_def bits_def)

lemma distinct_set_bits [simp]: "distinct (set_bits b)" by (simp add: set_bits_def)

lemma length_filter_id: "length (filter (\<lambda>x. x) b) = card {i. i < length b \<and> b ! i}"
  by (simp add: length_filter_conv_card)

lemma popcount_card: "popcount b = int (card (bits b))"
  by (simp add: popcount_def bits_def length_filter_id)

lemma length_set_bits: "length (set_bits b) = card (bits b)"
  by (metis distinct_card distinct_set_bits set_set_bits)

lemma length_or_with [simp]: "length (or_with a b) = length a" by (simp add: or_with_def)

lemma bits_or_with: "length b = length a \<Longrightarrow> bits (or_with a b) = bits a \<union> bits b"
  by (auto simp: bits_def or_with_def)

lemma intersects_bits: "length b = length a \<Longrightarrow> intersects a b \<longleftrightarrow> bits a \<inter> bits b \<noteq> {}"
  by (auto simp: intersects_def bits_def list_ex_iff)

lemma subset_of_bits: "length b = length a \<Longrightarrow> subset_of a b \<longleftrightarrow> bits a \<subseteq> bits b"
  by (auto simp: subset_of_def bits_def list_all_iff)

lemma bempty_bits: "bempty b \<longleftrightarrow> bits b = {}"
  by (auto simp: bempty_def bits_def list_ex_iff in_set_conv_nth)

lemma first_set_bit_neg: "first_set_bit b < 0 \<longleftrightarrow> bits b = {}"
proof -
  have "set_bits b = [] \<longleftrightarrow> bits b = {}" by (metis set_empty set_set_bits)
  then show ?thesis by (auto simp: first_set_bit_def split: list.splits)
qed

lemma first_set_bit_mem: "\<not> first_set_bit b < 0 \<Longrightarrow> nat (first_set_bit b) \<in> bits b"
proof -
  assume a: "\<not> first_set_bit b < 0"
  then obtain i ys where e: "set_bits b = i # ys"
    by (auto simp: first_set_bit_def split: list.splits)
  then have "i \<in> set (set_bits b)" by simp
  then have "i \<in> bits b" by simp
  then show ?thesis using e by (simp add: first_set_bit_def)
qed

lemma fold_bset_upt:
  assumes "m \<le> length b"
  shows "length (fold (\<lambda>i b. if P i then bset b i else b) [0..<m] b) = length b \<and>
         bits (fold (\<lambda>i b. if P i then bset b i else b) [0..<m] b) = bits b \<union> {i. i < m \<and> P i}"
  using assms
proof (induction m)
  case 0
  then show ?case by simp
next
  case (Suc m)
  then have IH: "length (fold (\<lambda>i b. if P i then bset b i else b) [0..<m] b) = length b"
    "bits (fold (\<lambda>i b. if P i then bset b i else b) [0..<m] b) = bits b \<union> {i. i < m \<and> P i}"
    by simp_all
  have "{i. i < Suc m \<and> P i} = (if P m then insert m {i. i < m \<and> P i} else {i. i < m \<and> P i})"
    by (auto simp: less_Suc_eq)
  then show ?case using IH Suc.prems by (simp add: bits_bset)
qed

lemma set_map_filter: "set (List.map_filter f xs) = {y. \<exists>x \<in> set xs. f x = Some y}"
  by (induction xs) (auto split: option.splits)

lemma dcs_range: "di < 4 \<Longrightarrow> dcs ! di \<in> {-1, 0, 1}"
proof -
  assume "di < 4"
  then have "di = 0 \<or> di = 1 \<or> di = 2 \<or> di = 3" by arith
  then show ?thesis by (auto simp: dcs_def)
qed

lemma nb_snd_range:
  assumes "in_grid R C p" "di < 4"
  shows "-1 \<le> snd (nb p di)" "snd (nb p di) \<le> C"
  using assms dcs_range [OF assms(2)] by (auto simp: nb_def in_grid_def)

lemma set_neighbours:
  assumes inv: "idx_inv grid R C idx_of coords" and C: "C \<le> 2 ^ 31" and p: "in_grid R C p"
  shows "set (neighbours idx_of p) = {j. j < length coords \<and> adj4 p (coords ! j)}"
proof -
  have k: "key (fst p + drs ! di) (snd p + dcs ! di) = pkey (nb p di)" for di
    by (simp add: pkey_def nb_def)
  have l: "idx_of (pkey (nb p di)) = Some j \<longleftrightarrow> j < length coords \<and> coords ! j = nb p di"
    if "di < 4" for di j
    using idx_inv_lookup [OF inv C nb_snd_range [OF p that]] .
  have "set (neighbours idx_of p) = {j. \<exists>di \<in> {0..<4}. idx_of (pkey (nb p di)) = Some j}"
    by (auto simp: neighbours_def set_map_filter k)
  also have "\<dots> = {j. \<exists>di. di < 4 \<and> j < length coords \<and> coords ! j = nb p di}"
    using l by auto
  also have "\<dots> = {j. j < length coords \<and> adj4 p (coords ! j)}"
    by (auto simp: adj4_def)
  finally show ?thesis .
qed

lemma graph_ok_mk:
  assumes inv: "idx_inv grid R C idx_of coords" and C: "C \<le> 2 ^ 31"
  shows "graph_ok grid R C coords (mk_adj idx_of coords) (mk_wallable grid coords)
           (mk_boundary R C coords)"
proof -
  have a: "set (mk_adj idx_of coords ! i) = {j. j < length coords \<and> adj4 (coords ! i) (coords ! j)}"
    if "i < length coords" for i
  proof -
    have "in_grid R C (coords ! i)" using inv that idx_inv_in_grid by (metis nth_mem)
    then show ?thesis using set_neighbours [OF inv C] that by (simp add: mk_adj_def)
  qed
  have b: "length (mk_boundary R C coords) = length coords"
    "bits (mk_boundary R C coords) = {i. i < length coords \<and> on_boundary R C (coords ! i)}"
    using fold_bset_upt [of "length coords" "init (length coords)" "\<lambda>i. on_boundary R C (coords ! i)"]
    by (simp_all add: mk_boundary_def)
  show ?thesis unfolding graph_ok_def using a b by (simp add: mk_adj_def mk_wallable_def)
qed

lemma visit_spec:
  assumes "\<forall>v \<in> set vs. v < length vis"
  shows "\<exists>new. visit blocked vs vis dq = (fold (\<lambda>v b. bset b v) new vis, dq @ new)
           \<and> distinct new \<and> set new \<inter> bits vis = {}
           \<and> set new = {v \<in> set vs. \<not> test blocked v \<and> v \<notin> bits vis}"
  using assms
proof (induction vs arbitrary: vis dq)
  case Nil
  then show ?case by (intro exI [of _ "[]"]) simp
next
  case (Cons v vs)
  have v: "v < length vis" using Cons.prems by simp
  show ?case
  proof (cases "test blocked v \<or> test vis v")
    case True
    obtain new where n: "visit blocked vs vis dq = (fold (\<lambda>v b. bset b v) new vis, dq @ new)"
      "distinct new" "set new \<inter> bits vis = {}"
      "set new = {v \<in> set vs. \<not> test blocked v \<and> v \<notin> bits vis}"
      using Cons.IH [of vis dq] Cons.prems by auto
    have "set new = {x \<in> set (v # vs). \<not> test blocked x \<and> x \<notin> bits vis}"
      using n(4) True v by (auto simp: test_bits)
    then show ?thesis using n True by (intro exI [of _ new]) auto
  next
    case False
    let ?vis = "bset vis v"
    have b: "bits ?vis = insert v (bits vis)" using v by (rule bits_bset)
    obtain new where n: "visit blocked vs ?vis (dq @ [v]) = (fold (\<lambda>v b. bset b v) new ?vis, (dq @ [v]) @ new)"
      "distinct new" "set new \<inter> bits ?vis = {}"
      "set new = {x \<in> set vs. \<not> test blocked x \<and> x \<notin> bits ?vis}"
      using Cons.IH [of ?vis "dq @ [v]"] Cons.prems by auto
    have nv: "v \<notin> bits vis" using False v by (simp add: test_bits)
    have 1: "distinct (v # new)" using n(2,3) b by auto
    have 2: "set (v # new) \<inter> bits vis = {}" using n(3) b nv by auto
    have 3: "set (v # new) = {x \<in> set (v # vs). \<not> test blocked x \<and> x \<notin> bits vis}"
      using n(4) b nv False by auto
    have 4: "visit blocked (v # vs) vis dq = (fold (\<lambda>v b. bset b v) (v # new) vis, dq @ (v # new))"
      using n(1) False by simp
    show ?thesis using 1 2 3 4 by (intro exI [of _ "v # new"]) blast
  qed
qed

lemma fold_bset_list:
  assumes "\<forall>v \<in> set new. v < length vis"
  shows "length (fold (\<lambda>v b. bset b v) new vis) = length vis \<and>
         bits (fold (\<lambda>v b. bset b v) new vis) = bits vis \<union> set new"
  using assms
proof (induction new arbitrary: vis)
  case Nil
  then show ?case by simp
next
  case (Cons v new)
  then show ?case using bits_bset [of v vis] by auto
qed

lemma reach_loop_total:
  assumes "adj_ok ga" "length vis = length ga" "set dq \<subseteq> bits vis"
    and "\<forall>u \<in> bits vis - set dq. closed_under ga blocked vis u"
  shows "\<exists>vis'. reach_loop ga blocked vis dq = Some vis' \<and> length vis' = length ga
           \<and> bits vis \<subseteq> bits vis' \<and> (\<forall>u \<in> bits vis'. closed_under ga blocked vis' u)"
  using assms
proof (induction "(length ga - card (bits vis)) + length dq" arbitrary: vis dq rule: less_induct)
  case less
  show ?case
  proof (cases dq)
    case Nil
    then have "reach_loop ga blocked vis dq = Some vis" by (subst reach_loop.simps) simp
    then show ?thesis using less.prems Nil by simp
  next
    case (Cons u dq1)
    have u: "u \<in> bits vis" using less.prems(3) Cons by simp
    then have ul: "u < length ga" using less.prems(2) bits_less by fastforce
    have vs: "\<forall>v \<in> set (ga ! u). v < length vis"
      using less.prems(1,2) ul by (simp add: adj_ok_def)
    obtain new where n: "visit blocked (ga ! u) vis dq1 = (fold (\<lambda>v b. bset b v) new vis, dq1 @ new)"
      "distinct new" "set new \<inter> bits vis = {}"
      "set new = {v \<in> set (ga ! u). \<not> test blocked v \<and> v \<notin> bits vis}"
      using visit_spec [OF vs, of blocked dq1] by blast
    let ?vis = "fold (\<lambda>v b. bset b v) new vis"
    have nl: "\<forall>v \<in> set new. v < length vis" using n(4) vs by auto
    have f: "length ?vis = length vis" "bits ?vis = bits vis \<union> set new"
      using fold_bset_list [OF nl] by simp_all
    have unf: "reach_loop ga blocked vis dq = reach_loop ga blocked ?vis (dq1 @ new)"
      using Cons n(1) by (subst reach_loop.simps) simp
    have c: "card (bits ?vis) = card (bits vis) + length new"
      using n(2,3) f(2) by (simp add: card_Un_disjoint distinct_card Int_commute)
    have "bits ?vis \<subseteq> {..<length ga}" using f(1) less.prems(2) bits_less by fastforce
    then have "card (bits ?vis) \<le> card {..<length ga}" by (intro card_mono) simp_all
    then have "card (bits ?vis) \<le> length ga" by simp
    then have m: "(length ga - card (bits ?vis)) + length (dq1 @ new)
        < (length ga - card (bits vis)) + length dq"
      using c Cons by simp
    have p2: "length ?vis = length ga" using f(1) less.prems(2) by simp
    have p3: "set (dq1 @ new) \<subseteq> bits ?vis" using less.prems(3) Cons f(2) by auto
    have p4: "\<forall>x \<in> bits ?vis - set (dq1 @ new). closed_under ga blocked ?vis x"
    proof
      fix x assume x: "x \<in> bits ?vis - set (dq1 @ new)"
      then have xv: "x \<in> bits vis" using f(2) by auto
      show "closed_under ga blocked ?vis x"
      proof (cases "x = u")
        case True
        then show ?thesis unfolding closed_under_def using n(4) f(2) by auto
      next
        case False
        then have "x \<in> bits vis - set dq" using x xv Cons by auto
        then have "closed_under ga blocked vis x" using less.prems(4) by blast
        then show ?thesis unfolding closed_under_def using f(2) by auto
      qed
    qed
    obtain vis' where r: "reach_loop ga blocked ?vis (dq1 @ new) = Some vis'"
      "length vis' = length ga" "bits ?vis \<subseteq> bits vis'"
      "\<forall>u \<in> bits vis'. closed_under ga blocked vis' u"
      using less.hyps [OF m less.prems(1) p2 p3 p4] by blast
    show ?thesis using r unf f(2) by auto
  qed
qed

lemma ft_ext_refl: "ft_ext ft ft" by (simp add: ft_ext_def)

lemma ft_ext_trans: "ft_ext a b \<Longrightarrow> ft_ext b c \<Longrightarrow> ft_ext a c"
  by (auto simp: ft_ext_def)

lemma add_edge_fst: "fst (add_edge ft u v c) = length (to ft)"
  by (simp add: add_edge_def Let_def)

lemma add_edge_fields:
  "nn (snd (add_edge ft u v c)) = nn ft"
  "to (snd (add_edge ft u v c)) = to ft @ [v, u]"
  "frm (snd (add_edge ft u v c)) = frm ft @ [u, v]"
  "rev_of (snd (add_edge ft u v c)) = rev_of ft @ [length (to ft) + 1, length (to ft)]"
  "base_cap (snd (add_edge ft u v c)) = base_cap ft @ [c, 0]"
  "adj (snd (add_edge ft u v c)) =
     ((adj ft)[u := adj ft ! u @ [length (to ft)]])
        [v := ((adj ft)[u := adj ft ! u @ [length (to ft)]]) ! v @ [length (to ft) + 1]]"
  "in_adj (snd (add_edge ft u v c)) =
     ((in_adj ft)[v := in_adj ft ! v @ [length (to ft)]])
        [u := ((in_adj ft)[v := in_adj ft ! v @ [length (to ft)]]) ! u @ [length (to ft) + 1]]"
  by (simp_all add: add_edge_def Let_def)

lemma add_edge_ext:
  assumes "ft_wf ft"
  shows "ft_ext ft (snd (add_edge ft u v c))"
  using assms by (simp add: ft_ext_def add_edge_fields nth_append ft_wf_def)

lemma nth_append2: "(xs @ [a, b]) ! e =
    (if e < length xs then xs ! e else if e = length xs then a else if e = Suc (length xs) then b
     else (xs @ [a, b]) ! e)"
  by (simp add: nth_append)

lemma add_edge_wf:
  assumes wf: "ft_wf ft" and u: "u < nn ft" and v: "v < nn ft"
  shows "ft_wf (snd (add_edge ft u v c))"
proof -
  let ?m = "length (to ft)"
  let ?ft = "snd (add_edge ft u v c)"
  have len: "length (adj ft) = nn ft" "length (in_adj ft) = nn ft"
    "length (frm ft) = ?m" "length (rev_of ft) = ?m" "length (base_cap ft) = ?m"
    using wf by (simp_all add: ft_wf_def)
  have old: "to ft ! e < nn ft \<and> frm ft ! e < nn ft \<and>
          rev_of ft ! e < ?m \<and> rev_of ft ! (rev_of ft ! e) = e \<and> rev_of ft ! e \<noteq> e \<and>
          frm ft ! (rev_of ft ! e) = to ft ! e \<and> to ft ! (rev_of ft ! e) = frm ft ! e"
    if "e < ?m" for e using wf that by (simp add: ft_wf_def)
  have oadj: "e < ?m \<and> frm ft ! e = w" if "w < nn ft" "e \<in> set (adj ft ! w)" for w e
    using wf that by (simp add: ft_wf_def)
  have oin: "set (in_adj ft ! w) = {e. e < ?m \<and> to ft ! e = w}" if "w < nn ft" for w
    using wf that by (simp add: ft_wf_def)
  have e_cases: "e < ?m \<or> e = ?m \<or> e = Suc ?m" if "e < ?m + 2" for e using that by arith
  have edges: "to ?ft ! e < nn ?ft \<and> frm ?ft ! e < nn ?ft \<and>
          rev_of ?ft ! e < length (to ?ft) \<and> rev_of ?ft ! (rev_of ?ft ! e) = e \<and>
          rev_of ?ft ! e \<noteq> e \<and>
          frm ?ft ! (rev_of ?ft ! e) = to ?ft ! e \<and> to ?ft ! (rev_of ?ft ! e) = frm ?ft ! e"
    if "e < length (to ?ft)" for e
  proof -
    have "e < ?m + 2" using that by (simp add: add_edge_fields)
    then consider "e < ?m" | "e = ?m" | "e = Suc ?m" using e_cases by blast
    then show ?thesis
    proof cases
      case 1
      then show ?thesis using old [OF 1] len by (simp add: add_edge_fields nth_append)
    next
      case 2
      then show ?thesis using len u v by (simp add: add_edge_fields nth_append)
    next
      case 3
      then show ?thesis using len u v by (simp add: add_edge_fields nth_append)
    qed
  qed
  have adjs: "e < length (to ?ft) \<and> frm ?ft ! e = w"
    if w: "w < nn ?ft" and e: "e \<in> set (adj ?ft ! w)" for w e
  proof -
    have w': "w < nn ft" using w by (simp add: add_edge_fields)
    have "e \<in> set (adj ft ! w) \<or> (e = ?m \<and> w = u) \<or> (e = Suc ?m \<and> w = v)"
      using e w' len u v by (auto simp: add_edge_fields nth_list_update split: if_splits)
    then show ?thesis
    proof (elim disjE)
      assume "e \<in> set (adj ft ! w)"
      then have "e < ?m \<and> frm ft ! e = w" by (rule oadj [OF w'])
      then show ?thesis using len by (simp add: add_edge_fields nth_append)
    next
      assume "e = ?m \<and> w = u"
      then show ?thesis using len by (simp add: add_edge_fields nth_append)
    next
      assume "e = Suc ?m \<and> w = v"
      then show ?thesis using len by (simp add: add_edge_fields nth_append)
    qed
  qed
  have ins: "set (in_adj ?ft ! w) = {e. e < length (to ?ft) \<and> to ?ft ! e = w}"
    if w: "w < nn ?ft" for w
  proof -
    have w': "w < nn ft" using w by (simp add: add_edge_fields)
    have 1: "set (in_adj ?ft ! w) = set (in_adj ft ! w) \<union> (if w = v then {?m} else {})
          \<union> (if w = u then {Suc ?m} else {})"
      using w' len u v by (auto simp: add_edge_fields nth_list_update)
    have 2: "{e. e < length (to ?ft) \<and> to ?ft ! e = w} = {e. e < ?m \<and> to ft ! e = w}
          \<union> (if w = v then {?m} else {}) \<union> (if w = u then {Suc ?m} else {})"
    proof -
      have "e < length (to ?ft) \<and> to ?ft ! e = w \<longleftrightarrow>
          (e < ?m \<and> to ft ! e = w) \<or> (e = ?m \<and> w = v) \<or> (e = Suc ?m \<and> w = u)" for e
      proof -
        have "e < ?m \<or> e = ?m \<or> e = Suc ?m \<or> \<not> e < ?m + 2" by arith
        then show ?thesis by (elim disjE) (auto simp: add_edge_fields nth_append)
      qed
      then show ?thesis by auto
    qed
    show ?thesis using 1 2 oin [OF w'] by simp
  qed
  show ?thesis
    unfolding ft_wf_def
    apply (intro conjI)
    subgoal using len by (simp add: add_edge_fields)
    subgoal using len by (simp add: add_edge_fields)
    subgoal using len by (simp add: add_edge_fields)
    subgoal using len by (simp add: add_edge_fields)
    subgoal using len by (simp add: add_edge_fields)
    subgoal using edges by blast
    subgoal using adjs by blast
    subgoal using ins by blast
    done
qed

lemma add_edge_net_ok:
  assumes "net_ok nc cinf snk ft" "u < nc" "v < nc" "c = cinf \<or> c = 1 \<or> c = 0" "u \<noteq> fst snk"
    "v = fst snk \<longrightarrow> (\<exists>i \<in> bits (snd snk). u = 2 * i + 1)" "even (length (to ft))"
  shows "net_ok nc cinf snk (snd (add_edge ft u v c))"
proof -
  have wf: "ft_wf ft" and nn: "nn ft = nc" using assms(1) by (simp_all add: net_ok_def)
  have len: "length (base_cap ft) = length (to ft)" using wf by (simp add: ft_wf_def)
  have 1: "ft_wf (snd (add_edge ft u v c))" using add_edge_wf [OF wf] assms(2,3) nn by simp
  have 2: "0 \<le> base_cap (snd (add_edge ft u v c)) ! e"
    if "0 \<le> cinf" "e < length (to (snd (add_edge ft u v c)))" for e
  proof -
    have "e < length (to ft) \<or> e = length (to ft) \<or> e = Suc (length (to ft))"
      using that(2) by (auto simp: add_edge_fields)
    then show ?thesis using assms(1,4) that(1) len
      by (elim disjE) (auto simp: add_edge_fields nth_append net_ok_def)
  qed
  have lenf: "length (frm ft) = length (to ft)" using wf by (simp add: ft_wf_def)
  have 3: "\<exists>i \<in> bits (snd snk). frm (snd (add_edge ft u v c)) ! e = 2 * i + 1"
    if "e < length (to (snd (add_edge ft u v c)))" "to (snd (add_edge ft u v c)) ! e = fst snk" for e
  proof -
    have "e < length (to ft) \<or> e = length (to ft) \<or> e = Suc (length (to ft))"
      using that(1) by (auto simp: add_edge_fields)
    then show ?thesis using assms(1,5,6) that(2) lenf
      by (elim disjE) (auto simp: add_edge_fields nth_append net_ok_def)
  qed
  show ?thesis unfolding net_ok_def using 1 2 3 nn by (simp add: add_edge_fields(1))
qed

lemma add_edge_length: "length (to (snd (add_edge ft u v c))) = length (to ft) + 2"
  by (simp add: add_edge_fields)

lemma net_ok_wf: "net_ok nc cinf snk ft \<Longrightarrow> ft_wf ft" by (simp add: net_ok_def)

lemma new_fields:
  "nn (FlowTemplate_new n0) = n0" "to (FlowTemplate_new n0) = []"
  "base_cap (FlowTemplate_new n0) = []"
  by (simp_all add: FlowTemplate_new_def)

lemma ft_wf_new: "ft_wf (FlowTemplate_new n0)"
  by (simp add: ft_wf_def FlowTemplate_new_def)

lemma add_cell_edges_fold:
  "add_cell_edges cN wl cinf ft = fold (cell_step wl cinf) [0..<cN] (ft, replicate cN 0)"
proof -
  have "(\<lambda>i (ft, cell_edge_idx).
             let cap_cell = (if i = horse_idx \<or> \<not> wl ! i then cinf else 1);
                 (idx, ft') = add_edge ft (2 * i) (2 * i + 1) cap_cell
             in (ft', cell_edge_idx[i := idx])) = cell_step wl cinf"
    by (intro ext) (simp add: cell_step_def cell_cap_def Let_def split_beta add_edge_fst)
  then show ?thesis by (simp add: add_cell_edges_def)
qed

lemma cell_loop:
  assumes "j \<le> cN" "fst snk = 2 * cN + 1"
  shows "let r = fold (cell_step wl cinf) [0..<j] (FlowTemplate_new (2 * cN + 2), replicate cN 0) in
         net_ok (2 * cN + 2) cinf snk (fst r) \<and> length (to (fst r)) = 2 * j \<and>
         cells_done wl cinf j (fst r) \<and> length (snd r) = cN \<and> (\<forall>i < j. snd r ! i = 2 * i)"
  using assms(1)
proof (induction j)
  case 0
  show ?case
    by (simp add: net_ok_def ft_wf_new new_fields cells_done_def)
next
  case (Suc j)
  let ?r = "fold (cell_step wl cinf) [0..<j] (FlowTemplate_new (2 * cN + 2), replicate cN 0)"
  let ?ft = "fst ?r"
  have IH: "net_ok (2 * cN + 2) cinf snk ?ft" "length (to ?ft) = 2 * j"
    "cells_done wl cinf j ?ft" "length (snd ?r) = cN" "\<forall>i < j. snd ?r ! i = 2 * i"
    using Suc by (simp_all add: Let_def)
  let ?ft' = "snd (add_edge ?ft (2 * j) (2 * j + 1) (cell_cap wl cinf j))"
  have r': "fold (cell_step wl cinf) [0..<Suc j] (FlowTemplate_new (2 * cN + 2), replicate cN 0)
      = (?ft', (snd ?r)[j := 2 * j])"
    using IH(2) by (simp add: cell_step_def)
  have wf: "ft_wf ?ft" using IH(1) by (rule net_ok_wf)
  have lens: "length (frm ?ft) = 2 * j" "length (base_cap ?ft) = 2 * j"
    using wf IH(2) by (simp_all add: ft_wf_def)
  have 1: "net_ok (2 * cN + 2) cinf snk ?ft'"
    using Suc.prems assms(2) IH(2)
    by (intro add_edge_net_ok [OF IH(1)]) (auto simp: cell_cap_def)
  have 2: "length (to ?ft') = 2 * Suc j" using IH(2) by (simp add: add_edge_length)
  have 3: "cells_done wl cinf (Suc j) ?ft'"
    unfolding cells_done_def
  proof (intro conjI allI impI)
    show "2 * Suc j \<le> length (to ?ft')" using 2 by simp
    fix i assume i: "i < Suc j"
    show "frm ?ft' ! (2 * i) = 2 * i" "to ?ft' ! (2 * i) = 2 * i + 1"
      "base_cap ?ft' ! (2 * i) = cell_cap wl cinf i"
      using i IH(2,3) lens
      by (cases "i = j"; simp add: add_edge_fields nth_append cells_done_def)+
  qed
  have 4: "length ((snd ?r)[j := 2 * j]) = cN" using IH(4) by simp
  have 5: "\<forall>i < Suc j. (snd ?r)[j := 2 * j] ! i = 2 * i"
    using IH(4,5) Suc.prems by (auto simp: nth_list_update less_Suc_eq)
  show ?case unfolding Let_def r' using 1 2 3 4 5 by simp
qed

lemma cells_done_ext:
  assumes "cells_done wl cinf j ft" "ft_ext ft ft'"
  shows "cells_done wl cinf j ft'"
proof -
  have "2 * i < length (to ft)" if "i < j" for i using assms(1) that by (simp add: cells_done_def)
  then show ?thesis using assms unfolding cells_done_def ft_ext_def by auto
qed

lemma grows_refl: "net_ok nc cinf snk ft \<Longrightarrow> even (length (to ft)) \<Longrightarrow> grows nc cinf snk ft ft"
  by (simp add: grows_def ft_ext_refl)

lemma grows_trans: "grows nc cinf snk a b \<Longrightarrow> grows nc cinf snk b c \<Longrightarrow> grows nc cinf snk a c"
  using ft_ext_trans by (auto simp: grows_def)

lemma grows_add_edge:
  assumes "net_ok nc cinf snk ft" "even (length (to ft))" "u < nc" "v < nc"
    "c = cinf \<or> c = 1 \<or> c = 0" "u \<noteq> fst snk"
    "v = fst snk \<longrightarrow> (\<exists>i \<in> bits (snd snk). u = 2 * i + 1)"
  shows "grows nc cinf snk ft (snd (add_edge ft u v c))"
  unfolding grows_def
  using add_edge_net_ok [OF assms(1,3,4,5,6,7,2)] add_edge_ext [OF net_ok_wf [OF assms(1)]] assms(2)
  by (simp add: add_edge_length)

lemma fold_grows:
  assumes "net_ok nc cinf snk ft" "even (length (to ft))"
    and "\<And>x s. x \<in> set xs \<Longrightarrow> net_ok nc cinf snk s \<Longrightarrow> even (length (to s)) \<Longrightarrow> grows nc cinf snk s (f x s)"
  shows "grows nc cinf snk ft (fold f xs ft)"
  using assms
proof (induction xs arbitrary: ft)
  case Nil
  then show ?case by (simp add: grows_refl)
next
  case (Cons x xs)
  have 1: "grows nc cinf snk ft (f x ft)" using Cons.prems by simp
  then have 2: "net_ok nc cinf snk (f x ft)" "even (length (to (f x ft)))"
    by (simp_all add: grows_def)
  have "grows nc cinf snk (f x ft) (fold f xs (f x ft))"
    using Cons.IH [OF 2] Cons.prems(3) by simp
  then show ?case using 1 grows_trans by fastforce
qed

lemma adj_loop:
  assumes "net_ok (2 * cN + 2) cinf (2 * cN + 1, bd) ft" "even (length (to ft))"
    "length ga = cN" "adj_ok ga"
  shows "grows (2 * cN + 2) cinf (2 * cN + 1, bd) ft (add_adj_edges cN ga cinf ft)"
  unfolding add_adj_edges_def
proof (rule fold_grows [OF assms(1,2)])
  fix i s
  assume i: "i \<in> set [0..<cN]" and s: "net_ok (2 * cN + 2) cinf (2 * cN + 1, bd) s" "even (length (to s))"
  show "grows (2 * cN + 2) cinf (2 * cN + 1, bd) s
          (fold (\<lambda>j ft. snd (add_edge ft (2 * i + 1) (2 * j) cinf)) (ga ! i) s)"
  proof (rule fold_grows [OF s])
    fix j t
    assume j: "j \<in> set (ga ! i)" and t: "net_ok (2 * cN + 2) cinf (2 * cN + 1, bd) t" "even (length (to t))"
    have "j < cN" using assms(3,4) i j by (auto simp: adj_ok_def)
    then show "grows (2 * cN + 2) cinf (2 * cN + 1, bd) t (snd (add_edge t (2 * i + 1) (2 * j) cinf))"
      using i by (intro grows_add_edge [OF t]) auto
  qed
qed

lemma sink_loop:
  assumes "net_ok (2 * cN + 2) cinf (2 * cN + 1, bd) ft" "even (length (to ft))" "length bd = cN"
  shows "grows (2 * cN + 2) cinf (2 * cN + 1, bd) ft (add_sink_edges cN bd (2 * cN + 1) cinf ft)"
  unfolding add_sink_edges_def
proof (rule fold_grows [OF assms(1,2)])
  fix i s
  assume i: "i \<in> set [0..<cN]" and s: "net_ok (2 * cN + 2) cinf (2 * cN + 1, bd) s" "even (length (to s))"
  have "grows (2 * cN + 2) cinf (2 * cN + 1, bd) s (snd (add_edge s (2 * i + 1) (2 * cN + 1) cinf))"
    if "test bd i"
  proof -
    have "i \<in> bits bd" using that i assms(3) by (simp add: test_bits)
    then show ?thesis using i by (intro grows_add_edge [OF s]) auto
  qed
  then show "grows (2 * cN + 2) cinf (2 * cN + 1, bd) s
      (if test bd i then snd (add_edge s (2 * i + 1) (2 * cN + 1) cinf) else s)"
    using s by (simp add: grows_refl)
qed

lemma sink_loop_none:
  assumes "\<forall>i < cN. \<not> test bd i"
  shows "add_sink_edges cN bd snk cinf ft = ft"
proof -
  have "fold (\<lambda>i ft. if test bd i then snd (add_edge ft (2 * i + 1) snk cinf) else ft) xs ft = ft"
    if "\<forall>i \<in> set xs. \<not> test bd i" for xs
    using that by (induction xs) simp_all
  then show ?thesis using assms by (simp add: add_sink_edges_def)
qed

lemma add_src_edges_fold:
  "add_src_edges cN src cinf ft = fold (src_step src cinf) [0..<cN] (ft, replicate cN 0)"
proof -
  have "(\<lambda>i (ft, src_edge_idx).
             let cap_src = (if i = horse_idx then cinf else 0);
                 (idx, ft') = add_edge ft src (2 * i + 1) cap_src
             in (ft', src_edge_idx[i := idx])) = src_step src cinf"
    by (intro ext) (simp add: src_step_def Let_def split_beta add_edge_fst)
  then show ?thesis by (simp add: add_src_edges_def)
qed

lemma src_loop:
  assumes "net_ok (2 * cN + 2) cinf (2 * cN + 1, bd) ft" "even (length (to ft))" "j \<le> cN"
  shows "let r = fold (src_step (2 * cN) cinf) [0..<j] (ft, replicate cN 0) in
         grows (2 * cN + 2) cinf (2 * cN + 1, bd) ft (fst r) \<and> length (snd r) = cN \<and>
         (\<forall>i < j. length (to ft) \<le> snd r ! i)"
  using assms(3)
proof (induction j)
  case 0
  then show ?case using assms(1,2) by (simp add: grows_refl)
next
  case (Suc j)
  let ?r = "fold (src_step (2 * cN) cinf) [0..<j] (ft, replicate cN 0)"
  have IH: "grows (2 * cN + 2) cinf (2 * cN + 1, bd) ft (fst ?r)" "length (snd ?r) = cN"
    "\<forall>i < j. length (to ft) \<le> snd ?r ! i"
    using Suc by (simp_all add: Let_def)
  have ok: "net_ok (2 * cN + 2) cinf (2 * cN + 1, bd) (fst ?r)" "even (length (to (fst ?r)))"
    "length (to ft) \<le> length (to (fst ?r))"
    using IH(1) by (simp_all add: grows_def ft_ext_def)
  let ?ft' = "snd (add_edge (fst ?r) (2 * cN) (2 * j + 1) (if j = horse_idx then cinf else 0))"
  have r': "fold (src_step (2 * cN) cinf) [0..<Suc j] (ft, replicate cN 0)
      = (?ft', (snd ?r)[j := length (to (fst ?r))])"
    by (simp add: src_step_def)
  have "grows (2 * cN + 2) cinf (2 * cN + 1, bd) (fst ?r) ?ft'"
    using Suc.prems by (intro grows_add_edge [OF ok(1,2)]) auto
  then have 1: "grows (2 * cN + 2) cinf (2 * cN + 1, bd) ft ?ft'" using IH(1) grows_trans by blast
  have 3: "\<forall>i < Suc j. length (to ft) \<le> (snd ?r)[j := length (to (fst ?r))] ! i"
    using IH(2,3) ok(3) Suc.prems by (auto simp: nth_list_update less_Suc_eq)
  show ?case unfolding Let_def r' using 1 3 IH(2) by simp
qed

lemma mk_ctx_fields:
  "N (mk_ctx k ga wl bd) = length ga" "gadj (mk_ctx k ga wl bd) = ga"
  "wallable (mk_ctx k ga wl bd) = wl" "boundary (mk_ctx k ga wl bd) = bd"
  "INFTY (mk_ctx k ga wl bd) = k + 1" "node_count (mk_ctx k ga wl bd) = 2 * length ga + 2"
  "SRC (mk_ctx k ga wl bd) = 2 * length ga" "SNK (mk_ctx k ga wl bd) = 2 * length ga + 1"
  by (simp_all add: mk_ctx_def Let_def split_beta)

lemma mk_ctx_flow:
  "flow (mk_ctx k ga wl bd) =
     fst (add_src_edges (length ga) (2 * length ga) (k + 1)
       (add_sink_edges (length ga) bd (2 * length ga + 1) (k + 1)
         (add_adj_edges (length ga) ga (k + 1)
           (fst (add_cell_edges (length ga) wl (k + 1) (FlowTemplate_new (2 * length ga + 2)))))))"
  "cell_edge_idx (mk_ctx k ga wl bd) =
     snd (add_cell_edges (length ga) wl (k + 1) (FlowTemplate_new (2 * length ga + 2)))"
  "src_edge_idx (mk_ctx k ga wl bd) =
     snd (add_src_edges (length ga) (2 * length ga) (k + 1)
       (add_sink_edges (length ga) bd (2 * length ga + 1) (k + 1)
         (add_adj_edges (length ga) ga (k + 1)
           (fst (add_cell_edges (length ga) wl (k + 1) (FlowTemplate_new (2 * length ga + 2)))))))"
  by (simp_all add: mk_ctx_def Let_def split_beta)

lemma mk_ctx_ok:
  assumes "adj_ok ga" "length wl = length ga" "length bd = length ga"
  shows "ctx_ok k (mk_ctx k ga wl bd)"
proof -
  let ?n = "length ga"
  let ?c = "k + 1"
  let ?s = "(2 * ?n + 1, bd)"
  let ?r1 = "add_cell_edges ?n wl ?c (FlowTemplate_new (2 * ?n + 2))"
  let ?f2 = "add_adj_edges ?n ga ?c (fst ?r1)"
  let ?f3 = "add_sink_edges ?n bd (2 * ?n + 1) ?c ?f2"
  let ?r4 = "add_src_edges ?n (2 * ?n) ?c ?f3"
  have l1: "net_ok (2 * ?n + 2) ?c ?s (fst ?r1)" "length (to (fst ?r1)) = 2 * ?n"
    "cells_done wl ?c ?n (fst ?r1)" "length (snd ?r1) = ?n" "\<forall>i < ?n. snd ?r1 ! i = 2 * i"
    using cell_loop [of ?n ?n ?s wl ?c] by (simp_all add: add_cell_edges_fold Let_def)
  have e1: "even (length (to (fst ?r1)))" using l1(2) by simp
  have g2: "grows (2 * ?n + 2) ?c ?s (fst ?r1) ?f2"
    using adj_loop [OF l1(1) e1 refl assms(1)] .
  then have o2: "net_ok (2 * ?n + 2) ?c ?s ?f2" "even (length (to ?f2))"
    by (simp_all add: grows_def)
  have g3: "grows (2 * ?n + 2) ?c ?s ?f2 ?f3"
    using sink_loop [OF o2 assms(3)] .
  then have o3: "net_ok (2 * ?n + 2) ?c ?s ?f3" "even (length (to ?f3))"
    by (simp_all add: grows_def)
  have l4: "grows (2 * ?n + 2) ?c ?s ?f3 (fst ?r4)" "length (snd ?r4) = ?n"
    "\<forall>i < ?n. length (to ?f3) \<le> snd ?r4 ! i"
    using src_loop [OF o3, of ?n] by (simp_all add: add_src_edges_fold Let_def)
  have g14: "grows (2 * ?n + 2) ?c ?s (fst ?r1) (fst ?r4)"
    using g2 g3 l4(1) grows_trans by blast
  then have ext: "ft_ext (fst ?r1) (fst ?r4)" and ok4: "net_ok (2 * ?n + 2) ?c ?s (fst ?r4)"
    by (simp_all add: grows_def)
  have cd: "cells_done wl ?c ?n (fst ?r4)" using cells_done_ext [OF l1(3) ext] .
  have "ft_ext (fst ?r1) ?f3" using g2 g3 grows_trans unfolding grows_def by blast
  then have "2 * ?n \<le> length (to ?f3)" using l1(2) by (simp add: ft_ext_def)
  then have se: "\<forall>i < ?n. 2 * ?n \<le> snd ?r4 ! i" using l4(3) by fastforce
  show ?thesis
    unfolding ctx_ok_def mk_ctx_fields mk_ctx_flow
    using assms ok4 cd l1(4,5) l4(2) se by simp
qed

lemma graph_ok_adj_ok: "graph_ok grid R C coords ga wl bd \<Longrightarrow> adj_ok ga"
  by (auto simp: graph_ok_def adj_ok_def)

lemma idx_inv_init:
  assumes "in_grid R C h"
  shows "idx_inv grid R C (Map.empty(key (fst h) (snd h) \<mapsto> 0)) [h]"
  using assms by (auto simp: idx_inv_def pkey_def)

lemma build_total:
  assumes "in_grid R C h" "C \<le> 2 ^ 31"
  shows "\<exists>ctx coords. build k grid R C h = Some (ctx, coords) \<and> built grid R C h k ctx coords"
proof -
  let ?i0 = "Map.empty(key (fst h) (snd h) \<mapsto> 0)"
  have inv0: "idx_inv grid R C ?i0 [h]" using assms(1) by (rule idx_inv_init)
  obtain idx_of new where r: "index_cells grid R C ?i0 [h] [h] = Some (idx_of, [h] @ new)"
    "idx_inv grid R C idx_of ([h] @ new)"
    "\<forall>p \<in> set ([h] @ new). closed_at grid R C ([h] @ new) p"
    using index_cells_total [OF inv0 assms(2), of "[h]"] by auto
  let ?coords = "[h] @ new"
  let ?ctx = "mk_ctx k (mk_adj idx_of ?coords) (mk_wallable grid ?coords) (mk_boundary R C ?coords)"
  have g: "graph_ok grid R C ?coords (mk_adj idx_of ?coords) (mk_wallable grid ?coords)
      (mk_boundary R C ?coords)"
    using graph_ok_mk [OF r(2) assms(2)] .
  have len: "length (mk_adj idx_of ?coords) = length ?coords"
    "length (mk_wallable grid ?coords) = length ?coords"
    "length (mk_boundary R C ?coords) = length ?coords"
    using g by (simp_all add: graph_ok_def)
  have ok: "ctx_ok k ?ctx"
    using mk_ctx_ok [OF graph_ok_adj_ok [OF g]] len by simp
  have b: "build k grid R C h = Some (?ctx, ?coords)"
    using r(1) by (simp add: build_def)
  have "built grid R C h k ?ctx ?coords"
    unfolding built_def mk_ctx_fields using ok g r(2,3) len by auto
  then show ?thesis using b by blast
qed

lemma outflow_update:
  assumes "x < length (to ft)" "length cap = length (to ft)"
  shows "outflow ft cap0 (cap[x := c]) u =
           outflow ft cap0 cap u + (if frm ft ! x = u then cap ! x - c else 0)"
proof (cases "frm ft ! x = u")
  case True
  let ?S = "{e. e < length (to ft) \<and> frm ft ! e = u}"
  have fin: "finite ?S" by simp
  have x: "x \<in> ?S" using True assms(1) by simp
  have 1: "(\<Sum>e \<in> ?S - {x}. cap0 ! e - cap[x := c] ! e) = (\<Sum>e \<in> ?S - {x}. cap0 ! e - cap ! e)"
    by (rule sum.cong) simp_all
  have "outflow ft cap0 (cap[x := c]) u
      = (cap0 ! x - cap[x := c] ! x) + (\<Sum>e \<in> ?S - {x}. cap0 ! e - cap[x := c] ! e)"
    unfolding outflow_def using sum.remove [OF fin x] by blast
  also have "\<dots> = (cap0 ! x - c) + (\<Sum>e \<in> ?S - {x}. cap0 ! e - cap ! e)"
    using 1 assms by simp
  also have "\<dots> = (cap ! x - c) + ((cap0 ! x - cap ! x) + (\<Sum>e \<in> ?S - {x}. cap0 ! e - cap ! e))"
    by simp
  also have "\<dots> = (cap ! x - c) + outflow ft cap0 cap u"
    unfolding outflow_def using sum.remove [OF fin x, of "\<lambda>e. cap0 ! e - cap ! e"] by simp
  finally show ?thesis using True by simp
next
  case False
  have "outflow ft cap0 (cap[x := c]) u = outflow ft cap0 cap u"
    unfolding outflow_def
  proof (intro sum.cong refl)
    fix e assume "e \<in> {e. e < length (to ft) \<and> frm ft ! e = u}"
    then have "e \<noteq> x" using False by auto
    then show "cap0 ! e - cap[x := c] ! e = cap0 ! e - cap ! e" by simp
  qed
  then show ?thesis using False by simp
qed

lemma wf_rev:
  assumes "ft_wf ft" "e < length (to ft)"
  shows "rev_of ft ! e < length (to ft)" "rev_of ft ! (rev_of ft ! e) = e" "rev_of ft ! e \<noteq> e"
    "frm ft ! (rev_of ft ! e) = to ft ! e" "to ft ! (rev_of ft ! e) = frm ft ! e"
    "to ft ! e < nn ft" "frm ft ! e < nn ft"
  using assms by (simp_all add: ft_wf_def)

lemma push_pairs:
  assumes wf: "ft_wf ft" and e: "e < length (to ft)" and p: "pairs_eq ft cap0 cap"
  shows "pairs_eq ft cap0 (cap[e := cap ! e - 1, rev_of ft ! e := cap ! (rev_of ft ! e) + 1])"
proof -
  let ?r = "rev_of ft ! e"
  let ?cap = "cap[e := cap ! e - 1, ?r := cap ! ?r + 1]"
  have len: "length cap = length (to ft)" using p by (simp add: pairs_eq_def)
  have r: "?r < length (to ft)" "rev_of ft ! ?r = e" "?r \<noteq> e" using wf_rev [OF wf e] by simp_all
  have "?cap ! x + ?cap ! (rev_of ft ! x) = cap0 ! x + cap0 ! (rev_of ft ! x)"
    if x: "x < length (to ft)" for x
  proof -
    have px: "cap ! x + cap ! (rev_of ft ! x) = cap0 ! x + cap0 ! (rev_of ft ! x)"
      using p x by (simp add: pairs_eq_def)
    have rx: "rev_of ft ! x < length (to ft)" "rev_of ft ! (rev_of ft ! x) = x"
      using wf_rev [OF wf x] by simp_all
    consider "x = e" | "x = ?r" | "x \<noteq> e \<and> x \<noteq> ?r" by blast
    then show ?thesis
    proof cases
      case 1
      then show ?thesis using px r len e by (simp add: nth_list_update)
    next
      case 2
      then show ?thesis using px r len e by (simp add: nth_list_update)
    next
      case 3
      then have "rev_of ft ! x \<noteq> e" "rev_of ft ! x \<noteq> ?r" using rx r by metis+
      then show ?thesis using 3 px by (simp add: nth_list_update)
    qed
  qed
  then show ?thesis using len by (simp add: pairs_eq_def)
qed

lemma push_outflow:
  assumes wf: "ft_wf ft" and e: "e < length (to ft)" and len: "length cap = length (to ft)"
  shows "outflow ft cap0 (cap[e := cap ! e - 1, rev_of ft ! e := cap ! (rev_of ft ! e) + 1]) u =
           outflow ft cap0 cap u + (if frm ft ! e = u then 1 else 0) - (if to ft ! e = u then 1 else 0)"
proof -
  let ?r = "rev_of ft ! e"
  let ?c1 = "cap[e := cap ! e - 1]"
  have r: "?r < length (to ft)" "?r \<noteq> e" "frm ft ! ?r = to ft ! e" using wf_rev [OF wf e] by simp_all
  have l1: "length ?c1 = length (to ft)" using len by simp
  have c1r: "?c1 ! ?r = cap ! ?r" using r by simp
  have "outflow ft cap0 (?c1[?r := cap ! ?r + 1]) u
      = outflow ft cap0 ?c1 u + (if frm ft ! ?r = u then ?c1 ! ?r - (cap ! ?r + 1) else 0)"
    using outflow_update [OF r(1) l1] .
  also have "\<dots> = outflow ft cap0 ?c1 u - (if to ft ! e = u then 1 else 0)"
    using r(3) c1r by simp
  also have "outflow ft cap0 ?c1 u = outflow ft cap0 cap u + (if frm ft ! e = u then 1 else 0)"
    using outflow_update [OF e len, of cap0 "cap ! e - 1" u] by simp
  finally show ?thesis .
qed

lemma augment_total:
  assumes wf: "ft_wf ft" and t: "on_tree ft s parent v" and p: "pairs_eq ft cap0 cap"
  shows "\<exists>cap'. augment ft s parent v cap = Some cap' \<and> pairs_eq ft cap0 cap' \<and>
           (\<forall>u. outflow ft cap0 cap' u =
                 outflow ft cap0 cap u + (if u = s then 1 else 0) - (if u = v then 1 else 0))"
  using t p
proof (induction arbitrary: cap rule: on_tree.induct)
  case root
  have "augment ft s parent s cap = Some cap" by (subst augment.simps) simp
  then show ?case using root by simp
next
  case (child v)
  let ?e = "nat (parent ! v)"
  let ?cap = "cap[?e := cap ! ?e - 1, rev_of ft ! ?e := cap ! (rev_of ft ! ?e) + 1]"
  have len: "length cap = length (to ft)" using child.prems by (simp add: pairs_eq_def)
  have ne: "rev_of ft ! ?e \<noteq> ?e" using wf_rev(3) [OF wf child.hyps(3)] .
  have unf: "augment ft s parent v cap = augment ft s parent (frm ft ! ?e) ?cap"
    using child.hyps(1) ne len child.hyps(3)
    by (subst augment.simps) (simp add: Let_def)
  have p': "pairs_eq ft cap0 ?cap" using push_pairs [OF wf child.hyps(3) child.prems] .
  obtain cap' where r: "augment ft s parent (frm ft ! ?e) ?cap = Some cap'" "pairs_eq ft cap0 cap'"
    "\<forall>u. outflow ft cap0 cap' u =
         outflow ft cap0 ?cap u + (if u = s then 1 else 0) - (if u = frm ft ! ?e then 1 else 0)"
    using child.IH [OF p'] by blast
  have o: "outflow ft cap0 ?cap u =
      outflow ft cap0 cap u + (if frm ft ! ?e = u then 1 else 0) - (if v = u then 1 else 0)" for u
    using push_outflow [OF wf child.hyps(3) len, of cap0 u] child.hyps(4) by simp
  have "outflow ft cap0 cap' u =
      outflow ft cap0 cap u + (if u = s then 1 else 0) - (if u = v then 1 else 0)" for u
    using r(3) o [of u] by auto
  then show ?case using r(1,2) unf by simp
qed

lemma finite_undisc [simp]: "finite (undisc parent)" by (simp add: undisc_def)

lemma undisc_update:
  assumes "v < length parent" "parent ! v = -1" "x \<noteq> -1"
  shows "card (undisc (parent[v := x])) + 1 = card (undisc parent)"
proof -
  have "undisc (parent[v := x]) = undisc parent - {v}"
    using assms by (auto simp: undisc_def nth_list_update)
  moreover have "v \<in> undisc parent" using assms by (simp add: undisc_def)
  ultimately show ?thesis using card_Suc_Diff1 [of "undisc parent" v] by simp
qed

lemma on_tree_update:
  assumes "on_tree ft s parent w" "parent ! v = -1"
  shows "on_tree ft s (parent[v := x]) w"
  using assms(1)
proof (induction rule: on_tree.induct)
  case root
  show ?case by (rule on_tree.root)
next
  case (child w)
  have "w \<noteq> v" using child.hyps(2) assms(2) by auto
  then have e: "parent[v := x] ! w = parent ! w" by simp
  show ?case
  proof (rule on_tree.child)
    show "w \<noteq> s" by fact
    show "0 \<le> parent[v := x] ! w" using e child.hyps(2) by simp
    show "nat (parent[v := x] ! w) < length (to ft)" using e child.hyps(3) by simp
    show "to ft ! nat (parent[v := x] ! w) = w" using e child.hyps(4) by simp
    show "on_tree ft s (parent[v := x]) (frm ft ! nat (parent[v := x] ! w))"
      using e child.IH by simp
  qed
qed

lemma tree_inv_discover:
  assumes wf: "ft_wf ft" and ti: "tree_inv ft s parent" and e: "e < length (to ft)"
    and u: "on_tree ft s parent (frm ft ! e)" and v: "parent ! (to ft ! e) = -1"
  shows "tree_inv ft s (parent[to ft ! e := int e])"
proof -
  let ?v = "to ft ! e"
  let ?p = "parent[?v := int e]"
  have vl: "?v < nn ft" using wf_rev(6) [OF wf e] .
  have len: "length parent = nn ft" and s: "s < nn ft" "parent ! s \<noteq> -1"
    using ti by (simp_all add: tree_inv_def)
  have vs: "?v \<noteq> s" using s(2) v by auto
  have pv: "?p ! ?v = int e" using vl len by simp
  have tv: "on_tree ft s ?p ?v"
  proof (rule on_tree.child)
    show "?v \<noteq> s" by fact
    show "0 \<le> ?p ! ?v" using pv by simp
    show "nat (?p ! ?v) < length (to ft)" using pv e by simp
    show "to ft ! nat (?p ! ?v) = ?v" using pv by simp
    show "on_tree ft s ?p (frm ft ! nat (?p ! ?v))"
      using pv on_tree_update [OF u v, of "int e"] by simp
  qed
  have "on_tree ft s ?p w" if "w < nn ft" "?p ! w \<noteq> -1" for w
  proof (cases "w = ?v")
    case True
    then show ?thesis using tv by simp
  next
    case False
    then have "parent ! w \<noteq> -1" using that(2) by simp
    then have "on_tree ft s parent w" using ti that(1) by (simp add: tree_inv_def)
    then show ?thesis using v by (rule on_tree_update)
  qed
  then show ?thesis unfolding tree_inv_def using len s vs by simp
qed

lemma scan_edges_inv:
  assumes wf: "ft_wf ft" and "tree_inv ft s parent"
    and "\<forall>e \<in> set es. e < length (to ft) \<and> on_tree ft s parent (frm ft ! e)"
    and "disc_q ft parent q"
  shows "tree_inv ft s (snd (scan_edges ft t cap es q parent)) \<and>
         disc_q ft (snd (scan_edges ft t cap es q parent)) (fst (scan_edges ft t cap es q parent)) \<and>
         card (undisc (snd (scan_edges ft t cap es q parent)))
           + length (fst (scan_edges ft t cap es q parent)) \<le> card (undisc parent) + length q \<and>
         ((\<forall>e < length (to ft). to ft ! e \<noteq> t) \<longrightarrow>
            snd (scan_edges ft t cap es q parent) ! t = parent ! t)"
  using assms(2,3,4)
proof (induction es arbitrary: q parent)
  case Nil
  then show ?case by simp
next
  case (Cons e es)
  have e: "e < length (to ft)" and u: "on_tree ft s parent (frm ft ! e)"
    and es: "\<forall>x \<in> set es. x < length (to ft) \<and> on_tree ft s parent (frm ft ! x)"
    using Cons.prems(2) by simp_all
  let ?v = "to ft ! e"
  show ?case
  proof (cases "cap ! e \<le> 0 \<or> parent ! ?v \<noteq> -1")
    case True
    then have "scan_edges ft t cap (e # es) q parent = scan_edges ft t cap es q parent"
      by (auto simp: Let_def)
    then show ?thesis using Cons.IH [OF Cons.prems(1) es Cons.prems(3)] by simp
  next
    case False
    then have v: "parent ! ?v = -1" and c: "\<not> cap ! e \<le> 0" by simp_all
    let ?p = "parent[?v := int e]"
    have vl: "?v < nn ft" using wf_rev(6) [OF wf e] .
    have len: "length parent = nn ft" using Cons.prems(1) by (simp add: tree_inv_def)
    have ti: "tree_inv ft s ?p" using tree_inv_discover [OF wf Cons.prems(1) e u v] .
    have cd: "card (undisc ?p) + 1 = card (undisc parent)"
      using undisc_update [of ?v parent "int e"] vl len v by simp
    show ?thesis
    proof (cases "?v = t")
      case True
      then have r: "scan_edges ft t cap (e # es) q parent = ([], ?p)"
        using v c by (simp add: Let_def)
      have nt: "\<not> (\<forall>x < length (to ft). to ft ! x \<noteq> t)" using True e by auto
      have "tree_inv ft s (snd ([], ?p))" "disc_q ft (snd ([], ?p)) (fst ([], ?p))"
        "card (undisc (snd ([], ?p))) + length (fst ([]::nat list, ?p)) \<le> card (undisc parent) + length q"
        using ti cd by (simp_all add: disc_q_def)
      then show ?thesis unfolding r using nt by blast
    next
      case False
      then have r: "scan_edges ft t cap (e # es) q parent = scan_edges ft t cap es (q @ [?v]) ?p"
        using v c by (simp add: Let_def)
      have es': "\<forall>x \<in> set es. x < length (to ft) \<and> on_tree ft s ?p (frm ft ! x)"
      proof
        fix x assume "x \<in> set es"
        then have "x < length (to ft)" "on_tree ft s parent (frm ft ! x)" using es by simp_all
        then show "x < length (to ft) \<and> on_tree ft s ?p (frm ft ! x)"
          using on_tree_update [OF _ v] by simp
      qed
      have dq: "disc_q ft ?p (q @ [?v])"
        using Cons.prems(3) vl len v unfolding disc_q_def
        by (auto simp: nth_list_update)
      have IH: "tree_inv ft s (snd (scan_edges ft t cap es (q @ [?v]) ?p))"
        "disc_q ft (snd (scan_edges ft t cap es (q @ [?v]) ?p)) (fst (scan_edges ft t cap es (q @ [?v]) ?p))"
        "card (undisc (snd (scan_edges ft t cap es (q @ [?v]) ?p)))
           + length (fst (scan_edges ft t cap es (q @ [?v]) ?p)) \<le> card (undisc ?p) + length (q @ [?v])"
        "(\<forall>e < length (to ft). to ft ! e \<noteq> t) \<longrightarrow>
            snd (scan_edges ft t cap es (q @ [?v]) ?p) ! t = ?p ! t"
        using Cons.IH [OF ti es' dq] by simp_all
      have pt: "?p ! t = parent ! t" using False by simp
      show ?thesis unfolding r using IH cd pt by simp
    qed
  qed
qed

lemma flow_bfs_total:
  assumes wf: "ft_wf ft" and "tree_inv ft s parent" and "disc_q ft parent q"
  shows "\<exists>parent'. flow_bfs ft t cap q parent = Some parent' \<and> tree_inv ft s parent' \<and>
           ((\<forall>e < length (to ft). to ft ! e \<noteq> t) \<longrightarrow> parent' ! t = parent ! t)"
  using assms(2,3)
proof (induction "card (undisc parent) + length q" arbitrary: q parent rule: less_induct)
  case less
  show ?case
  proof (cases "q \<noteq> [] \<and> parent ! t = -1")
    case False
    then have "flow_bfs ft t cap q parent = Some parent"
      by (subst flow_bfs.simps) auto
    then show ?thesis using less.prems by simp
  next
    case True
    then obtain u q1 where q: "q = u # q1" by (cases q) auto
    let ?r = "scan_edges ft t cap (adj ft ! u) q1 parent"
    have unf: "flow_bfs ft t cap q parent = flow_bfs ft t cap (fst ?r) (snd ?r)"
      using True q by (subst flow_bfs.simps) (simp add: split_beta)
    have u: "u < nn ft" "parent ! u \<noteq> -1" using less.prems(2) q by (simp_all add: disc_q_def)
    then have tu: "on_tree ft s parent u" using less.prems(1) by (simp add: tree_inv_def)
    have es: "\<forall>e \<in> set (adj ft ! u). e < length (to ft) \<and> on_tree ft s parent (frm ft ! e)"
      using wf u(1) tu by (auto simp: ft_wf_def)
    have dq1: "disc_q ft parent q1" using less.prems(2) q by (simp add: disc_q_def)
    have s: "tree_inv ft s (snd ?r)" "disc_q ft (snd ?r) (fst ?r)"
      "card (undisc (snd ?r)) + length (fst ?r) \<le> card (undisc parent) + length q1"
      "(\<forall>e < length (to ft). to ft ! e \<noteq> t) \<longrightarrow> snd ?r ! t = parent ! t"
      using scan_edges_inv [OF wf less.prems(1) es dq1, of t cap] by simp_all
    have m: "card (undisc (snd ?r)) + length (fst ?r) < card (undisc parent) + length q"
      using s(3) q by simp
    obtain parent' where r: "flow_bfs ft t cap (fst ?r) (snd ?r) = Some parent'"
      "tree_inv ft s parent'"
      "(\<forall>e < length (to ft). to ft ! e \<noteq> t) \<longrightarrow> parent' ! t = snd ?r ! t"
      using less.hyps [OF m s(1,2)] by blast
    show ?thesis using r unf s(4) by simp
  qed
qed

lemma flow_ok_init:
  assumes "length cap0 = length (to ft)"
  shows "flow_ok ft cap0 cap0 s t 0"
  using assms by (simp add: flow_ok_def pairs_eq_def outflow_def)

lemma tree_inv_init:
  assumes "s < nn ft"
  shows "tree_inv ft s ((replicate (nn ft) (-1))[s := -2])" "disc_q ft ((replicate (nn ft) (-1))[s := -2]) [s]"
proof -
  let ?p = "(replicate (nn ft) (-1 :: int))[s := -2]"
  have ps: "?p ! s = -2" using assms by simp
  have "on_tree ft s ?p v" if "v < nn ft" "?p ! v \<noteq> -1" for v
  proof -
    have "v = s" using that by (cases "v = s") simp_all
    then show ?thesis by (simp add: on_tree.root)
  qed
  then show "tree_inv ft s ?p" using assms ps by (simp add: tree_inv_def)
  show "disc_q ft ?p [s]" using assms ps by (simp add: disc_q_def)
qed

lemma maxflow_loop_total:
  assumes wf: "ft_wf ft" and s: "s < nn ft" and t: "t < nn ft" and st: "s \<noteq> t"
    and ok: "flow_ok ft cap0 cap s t fl"
  shows "\<exists>f cap'. maxflow_loop ft s t limit fl cap = Some (f, cap') \<and> flow_ok ft cap0 cap' s t f \<and>
           fl \<le> f \<and> ((\<forall>e < length (to ft). to ft ! e \<noteq> t) \<longrightarrow> f = fl \<and> cap' = cap)"
  using ok
proof (induction "nat (limit - fl)" arbitrary: fl cap rule: less_induct)
  case less
  show ?case
  proof (cases "fl < limit")
    case False
    then have "maxflow_loop ft s t limit fl cap = Some (fl, cap)"
      by (subst maxflow_loop.simps) simp
    then show ?thesis using less.prems by simp
  next
    case True
    let ?p0 = "(replicate (nn ft) (-1 :: int))[s := -2]"
    obtain parent where b: "flow_bfs ft t cap [s] ?p0 = Some parent" "tree_inv ft s parent"
      "(\<forall>e < length (to ft). to ft ! e \<noteq> t) \<longrightarrow> parent ! t = ?p0 ! t"
      using flow_bfs_total [OF wf tree_inv_init [OF s], of t cap] by blast
    have p0t: "?p0 ! t = -1" using st t by simp
    show ?thesis
    proof (cases "parent ! t = -1")
      case True
      then have "maxflow_loop ft s t limit fl cap = Some (fl, cap)"
        using \<open>fl < limit\<close> b(1) by (subst maxflow_loop.simps) simp
      then show ?thesis using less.prems by simp
    next
      case False
      then have tt: "on_tree ft s parent t" using b(2) t by (simp add: tree_inv_def)
      have pe: "pairs_eq ft cap0 cap" using less.prems by (simp add: flow_ok_def)
      obtain cap1 where a: "augment ft s parent t cap = Some cap1" "pairs_eq ft cap0 cap1"
        "\<forall>u. outflow ft cap0 cap1 u =
              outflow ft cap0 cap u + (if u = s then 1 else 0) - (if u = t then 1 else 0)"
        using augment_total [OF wf tt pe] by blast
      have ok1: "flow_ok ft cap0 cap1 s t (fl + 1)"
        using a(2,3) less.prems st by (simp add: flow_ok_def)
      have m: "nat (limit - (fl + 1)) < nat (limit - fl)" using True by simp
      obtain f cap' where r: "maxflow_loop ft s t limit (fl + 1) cap1 = Some (f, cap')"
        "flow_ok ft cap0 cap' s t f" "fl + 1 \<le> f"
        using less.hyps [OF m ok1] by blast
      have unf: "maxflow_loop ft s t limit fl cap = maxflow_loop ft s t limit (fl + 1) cap1"
        using True False b(1) a(1) by (subst maxflow_loop.simps) simp
      have "\<not> (\<forall>e < length (to ft). to ft ! e \<noteq> t)" using b(3) p0t False by auto
      then show ?thesis using r unf by auto
    qed
  qed
qed

text \<open>The backward search.\<close>

lemma scan_in_spec:
  assumes "\<forall>e \<in> set es. frm ft ! e < length can"
  shows "\<exists>new. scan_in ft cap es can dq = (fold (\<lambda>v b. bset b v) new can, dq @ new)
           \<and> distinct new \<and> set new \<inter> bits can = {}
           \<and> set new = {u. \<exists>e \<in> set es. u = frm ft ! e \<and> cap ! e > 0 \<and> u \<notin> bits can}"
  using assms
proof (induction es arbitrary: can dq)
  case Nil
  then show ?case by (intro exI [of _ "[]"]) simp
next
  case (Cons e es)
  let ?u = "frm ft ! e"
  have u: "?u < length can" using Cons.prems by simp
  show ?case
  proof (cases "cap ! e > 0 \<and> \<not> can ! ?u")
    case False
    obtain new where n: "scan_in ft cap es can dq = (fold (\<lambda>v b. bset b v) new can, dq @ new)"
      "distinct new" "set new \<inter> bits can = {}"
      "set new = {u. \<exists>e \<in> set es. u = frm ft ! e \<and> cap ! e > 0 \<and> u \<notin> bits can}"
      using Cons.IH [of can dq] Cons.prems by auto
    have "set new = {u. \<exists>x \<in> set (e # es). u = frm ft ! x \<and> cap ! x > 0 \<and> u \<notin> bits can}"
      using n(4) False u by (auto simp: bits_def)
    moreover have "scan_in ft cap (e # es) can dq = scan_in ft cap es can dq"
      using False by (auto simp: Let_def)
    ultimately show ?thesis using n by (intro exI [of _ new]) simp
  next
    case True
    let ?can = "can[?u := True]"
    have cb: "?can = bset can ?u" by (simp add: bset_def)
    have b: "bits ?can = insert ?u (bits can)" unfolding cb using u by (rule bits_bset)
    have nu: "?u \<notin> bits can" using True by (simp add: bits_def)
    obtain new where n: "scan_in ft cap es ?can (dq @ [?u]) = (fold (\<lambda>v b. bset b v) new ?can, (dq @ [?u]) @ new)"
      "distinct new" "set new \<inter> bits ?can = {}"
      "set new = {u. \<exists>e \<in> set es. u = frm ft ! e \<and> cap ! e > 0 \<and> u \<notin> bits ?can}"
      using Cons.IH [of ?can "dq @ [?u]"] Cons.prems by auto
    have 1: "distinct (?u # new)" using n(2,3) b by auto
    have 2: "set (?u # new) \<inter> bits can = {}" using n(3) b nu by auto
    have 3: "set (?u # new) = {u. \<exists>x \<in> set (e # es). u = frm ft ! x \<and> cap ! x > 0 \<and> u \<notin> bits can}"
      using n(4) b nu True by auto
    have 4: "scan_in ft cap (e # es) can dq = (fold (\<lambda>v b. bset b v) (?u # new) can, dq @ (?u # new))"
      using n(1) True by (simp add: Let_def cb)
    show ?thesis using 1 2 3 4 by (intro exI [of _ "?u # new"]) blast
  qed
qed

lemma residual_loop_total:
  assumes wf: "ft_wf ft" and "length can = nn ft" "set dq \<subseteq> bits can"
    and "\<forall>v \<in> bits can - set dq. res_closed ft cap can v"
  shows "\<exists>can'. residual_loop ft cap can dq = Some can' \<and> length can' = nn ft
           \<and> bits can \<subseteq> bits can' \<and> (\<forall>v \<in> bits can'. res_closed ft cap can' v)"
  using assms(2,3,4)
proof (induction "(nn ft - card (bits can)) + length dq" arbitrary: can dq rule: less_induct)
  case less
  show ?case
  proof (cases dq)
    case Nil
    then have "residual_loop ft cap can dq = Some can" by (subst residual_loop.simps) simp
    then show ?thesis using less.prems Nil by simp
  next
    case (Cons v dq1)
    have v: "v \<in> bits can" using less.prems(2) Cons by simp
    then have vl: "v < nn ft" using less.prems(1) bits_less by fastforce
    have ia: "set (in_adj ft ! v) = {e. e < length (to ft) \<and> to ft ! e = v}"
      using wf vl by (simp add: ft_wf_def)
    have es: "\<forall>e \<in> set (in_adj ft ! v). frm ft ! e < length can"
      using ia wf_rev(7) [OF wf] less.prems(1) by auto
    obtain new where n: "scan_in ft cap (in_adj ft ! v) can dq1 = (fold (\<lambda>v b. bset b v) new can, dq1 @ new)"
      "distinct new" "set new \<inter> bits can = {}"
      "set new = {u. \<exists>e \<in> set (in_adj ft ! v). u = frm ft ! e \<and> cap ! e > 0 \<and> u \<notin> bits can}"
      using scan_in_spec [OF es, of cap dq1] by blast
    let ?can = "fold (\<lambda>v b. bset b v) new can"
    have nl: "\<forall>x \<in> set new. x < length can" using n(4) es by auto
    have f: "length ?can = length can" "bits ?can = bits can \<union> set new"
      using fold_bset_list [OF nl] by simp_all
    have unf: "residual_loop ft cap can dq = residual_loop ft cap ?can (dq1 @ new)"
      using Cons n(1) by (subst residual_loop.simps) simp
    have c: "card (bits ?can) = card (bits can) + length new"
      using n(2,3) f(2) by (simp add: card_Un_disjoint distinct_card Int_commute)
    have "bits ?can \<subseteq> {..<nn ft}" using f(1) less.prems(1) bits_less by fastforce
    then have "card (bits ?can) \<le> card {..<nn ft}" by (intro card_mono) simp_all
    then have "card (bits ?can) \<le> nn ft" by simp
    then have m: "(nn ft - card (bits ?can)) + length (dq1 @ new)
        < (nn ft - card (bits can)) + length dq"
      using c Cons by simp
    have p2: "length ?can = nn ft" using f(1) less.prems(1) by simp
    have p3: "set (dq1 @ new) \<subseteq> bits ?can" using less.prems(2) Cons f(2) by auto
    have p4: "\<forall>x \<in> bits ?can - set (dq1 @ new). res_closed ft cap ?can x"
    proof
      fix x assume x: "x \<in> bits ?can - set (dq1 @ new)"
      then have xv: "x \<in> bits can" using f(2) by auto
      show "res_closed ft cap ?can x"
      proof (cases "x = v")
        case True
        show ?thesis unfolding res_closed_def
        proof (intro allI impI)
          fix e assume e: "e < length (to ft)" "to ft ! e = x \<and> 0 < cap ! e"
          then have "e \<in> set (in_adj ft ! v)" using ia True by simp
          then have "frm ft ! e \<in> bits can \<or> frm ft ! e \<in> set new" using n(4) e(2) by auto
          then show "frm ft ! e \<in> bits ?can" using f(2) by auto
        qed
      next
        case False
        then have "x \<in> bits can - set dq" using x xv Cons by auto
        then have "res_closed ft cap can x" using less.prems(3) by blast
        then show ?thesis unfolding res_closed_def using f(2) by auto
      qed
    qed
    obtain can' where r: "residual_loop ft cap ?can (dq1 @ new) = Some can'"
      "length can' = nn ft" "bits ?can \<subseteq> bits can'"
      "\<forall>v \<in> bits can'. res_closed ft cap can' v"
      using less.hyps [OF m p2 p3 p4] by blast
    show ?thesis using r unf f(2) by auto
  qed
qed

lemma cut_bound:
  assumes wf: "ft_wf ft" and ok: "flow_ok ft cap0 cap s t f" and f0: "0 \<le> f"
    and len: "length can = nn ft" and cl: "\<forall>v \<in> bits can. res_closed ft cap can v"
    and t: "t \<in> bits can" and nonneg: "\<forall>e < length (to ft). 0 \<le> cap0 ! e"
    and S: "S \<subseteq> {e. e < length (to ft) \<and> frm ft ! e \<notin> bits can \<and> to ft ! e \<in> bits can \<and> 1 \<le> cap0 ! e}"
  shows "int (card S) \<le> f"
proof -
  let ?m = "length (to ft)"
  let ?d = "\<lambda>e. cap0 ! e - cap ! e"
  let ?r = "\<lambda>e. rev_of ft ! e"
  let ?X = "{u. u < nn ft \<and> u \<notin> bits can}"
  let ?EX = "{e. e < ?m \<and> frm ft ! e \<in> ?X}"
  let ?EXX = "{e. e < ?m \<and> frm ft ! e \<in> ?X \<and> to ft ! e \<in> ?X}"
  let ?EXT = "{e. e < ?m \<and> frm ft ! e \<in> ?X \<and> to ft ! e \<notin> ?X}"
  have pe: "pairs_eq ft cap0 cap" and cons: "\<forall>u < nn ft. u \<noteq> s \<and> u \<noteq> t \<longrightarrow> outflow ft cap0 cap u = 0"
    and os: "outflow ft cap0 cap s = f"
    using ok by (simp_all add: flow_ok_def)
  have finX: "finite ?X" and finEX: "finite ?EX" and finEXX: "finite ?EXX" and finEXT: "finite ?EXT"
    by simp_all
  \<comment> \<open>regrouping by tail\<close>
  have grp: "(\<Sum>u \<in> ?X. outflow ft cap0 cap u) = (\<Sum>e \<in> ?EX. ?d e)"
  proof -
    have "(\<Sum>u \<in> ?X. \<Sum>e \<in> {e \<in> ?EX. frm ft ! e = u}. ?d e) = (\<Sum>e \<in> ?EX. ?d e)"
      by (rule sum.group [OF finEX finX]) auto
    moreover have "{e \<in> ?EX. frm ft ! e = u} = {e. e < ?m \<and> frm ft ! e = u}" if "u \<in> ?X" for u
      using that by auto
    ultimately show ?thesis unfolding outflow_def by simp
  qed
  \<comment> \<open>conservation\<close>
  have le_f: "(\<Sum>u \<in> ?X. outflow ft cap0 cap u) \<le> f"
  proof -
    have "(\<Sum>u \<in> ?X. outflow ft cap0 cap u) = (\<Sum>u \<in> ?X. if u = s then f else 0)"
    proof (rule sum.cong [OF refl])
      fix u assume u: "u \<in> ?X"
      then have "u \<noteq> t" using t by auto
      then show "outflow ft cap0 cap u = (if u = s then f else 0)" using cons os u by auto
    qed
    also have "\<dots> = (if s \<in> ?X then f else 0)" using finX by (simp add: sum.delta)
    finally show ?thesis using f0 by simp
  qed
  \<comment> \<open>edges inside cancel\<close>
  have rv: "?r e < ?m" "?r (?r e) = e" "frm ft ! ?r e = to ft ! e" "to ft ! ?r e = frm ft ! e"
    if "e < ?m" for e using wf_rev [OF wf that] by simp_all
  have dneg: "?d (?r e) = - ?d e" if "e < ?m" for e
  proof -
    have "cap ! e + cap ! ?r e = cap0 ! e + cap0 ! ?r e" using pe that by (simp add: pairs_eq_def)
    then show ?thesis by simp
  qed
  have "(\<Sum>e \<in> ?EXX. ?d e) = (\<Sum>e \<in> ?EXX. ?d (?r e))"
    by (rule sum.reindex_bij_witness [where i = ?r and j = ?r]) (auto simp: rv)
  also have "\<dots> = (\<Sum>e \<in> ?EXX. - ?d e)"
    by (rule sum.cong [OF refl]) (use dneg in auto)
  also have "\<dots> = - (\<Sum>e \<in> ?EXX. ?d e)" by (rule sum_negf)
  finally have inner: "(\<Sum>e \<in> ?EXX. ?d e) = 0" by simp
  \<comment> \<open>edges across the cut\<close>
  have across: "cap0 ! e \<le> ?d e" if "e \<in> ?EXT" for e
  proof -
    have e: "e < ?m" "frm ft ! e \<notin> bits can" using that by auto
    have "to ft ! e < nn ft" using wf_rev(6) [OF wf e(1)] .
    then have "to ft ! e \<in> bits can" using that by auto
    then have "res_closed ft cap can (to ft ! e)" using cl by blast
    then have "\<not> cap ! e > 0" using e unfolding res_closed_def by auto
    then show ?thesis by simp
  qed
  have SEXT: "S \<subseteq> ?EXT"
  proof
    fix e assume "e \<in> S"
    then have e: "e < ?m" "frm ft ! e \<notin> bits can" "to ft ! e \<in> bits can" using S by auto
    have "frm ft ! e < nn ft" using wf_rev(7) [OF wf e(1)] .
    then show "e \<in> ?EXT" using e by auto
  qed
  have "int (card S) = (\<Sum>e \<in> S. 1)" by simp
  also have "\<dots> \<le> (\<Sum>e \<in> S. ?d e)"
  proof (rule sum_mono)
    fix e assume e: "e \<in> S"
    then have "1 \<le> cap0 ! e" using S by auto
    moreover have "cap0 ! e \<le> ?d e" using across SEXT e by blast
    ultimately show "1 \<le> ?d e" by simp
  qed
  also have "\<dots> \<le> (\<Sum>e \<in> ?EXT. ?d e)"
  proof (rule sum_mono2 [OF finEXT SEXT])
    fix e assume e: "e \<in> ?EXT - S"
    then have "0 \<le> cap0 ! e" using nonneg by auto
    moreover have "cap0 ! e \<le> ?d e" using across e by blast
    ultimately show "0 \<le> ?d e" by simp
  qed
  also have "\<dots> = (\<Sum>e \<in> ?EXX. ?d e) + (\<Sum>e \<in> ?EXT. ?d e)" using inner by simp
  also have "\<dots> = (\<Sum>e \<in> ?EXX \<union> ?EXT. ?d e)"
    by (rule sum.union_disjoint [symmetric]) auto
  also have "?EXX \<union> ?EXT = ?EX" by auto
  also have "(\<Sum>e \<in> ?EX. ?d e) \<le> f" using grp le_f by simp
  finally show ?thesis .
qed

lemma cap_rel_refl: "cap_rel cN touched cinf cap cap"
  by (simp add: cap_rel_def)

lemma cap_rel_trans: "cap_rel cN touched cinf a b \<Longrightarrow> cap_rel cN touched cinf b c \<Longrightarrow> cap_rel cN touched cinf a c"
  by (auto simp: cap_rel_def)

lemma cap_rel_update:
  assumes "c = 0 \<or> c = cinf" "\<forall>i < cN. i \<notin> touched \<longrightarrow> x \<noteq> 2 * i"
  shows "cap_rel cN touched cinf cap (cap[x := c])"
proof (cases "x < length cap")
  case True
  then show ?thesis using assms by (auto simp: cap_rel_def nth_list_update)
next
  case False
  then have "cap[x := c] = cap" by (simp add: list_update_beyond)
  then show ?thesis by (simp add: cap_rel_refl)
qed

lemma patch_deleted_rel:
  assumes "\<forall>j < N ctx. cell_edge_idx ctx ! j = 2 * j" "length del = N ctx"
  shows "cap_rel (N ctx) (bits del) (INFTY ctx) cap (patch_deleted ctx del cap)"
proof -
  have "cap_rel (N ctx) (bits del) (INFTY ctx) cap
      (fold (\<lambda>i cap. cap[cell_edge_idx ctx ! i := 0]) xs cap)"
    if "set xs \<subseteq> bits del" for xs
    using that
  proof (induction xs arbitrary: cap)
    case Nil
    then show ?case by (simp add: cap_rel_refl)
  next
    case (Cons j xs)
    have j: "j \<in> bits del" "j < N ctx" using Cons.prems assms(2) bits_less by fastforce+
    have "cap_rel (N ctx) (bits del) (INFTY ctx) cap (cap[cell_edge_idx ctx ! j := 0])"
      using j assms(1) by (intro cap_rel_update) auto
    moreover have "cap_rel (N ctx) (bits del) (INFTY ctx) (cap[cell_edge_idx ctx ! j := 0])
        (fold (\<lambda>i cap. cap[cell_edge_idx ctx ! i := 0]) xs (cap[cell_edge_idx ctx ! j := 0]))"
      using Cons.IH Cons.prems by simp
    ultimately show ?case using cap_rel_trans by fastforce
  qed
  then show ?thesis by (simp add: patch_deleted_def)
qed

lemma patch_forced_fold:
  "patch_forced ctx del frc cap = fold (forced_step ctx del) (set_bits frc) (True, cap)"
proof -
  have "(\<lambda>i (ok, cap).
             if test del i then (False, cap)
             else (ok, cap[cell_edge_idx ctx ! i := INFTY ctx, src_edge_idx ctx ! i := INFTY ctx]))
        = forced_step ctx del"
    by (intro ext) (simp add: forced_step_def split_beta)
  then show ?thesis by (simp add: patch_forced_def)
qed

lemma patch_forced_rel:
  assumes "\<forall>j < N ctx. cell_edge_idx ctx ! j = 2 * j" "\<forall>j < N ctx. 2 * N ctx \<le> src_edge_idx ctx ! j"
    "length frc = N ctx"
  shows "cap_rel (N ctx) (bits frc) (INFTY ctx) cap (snd (patch_forced ctx del frc cap))"
    and "(\<forall>j \<in> bits frc. \<not> test del j) \<Longrightarrow> fst (patch_forced ctx del frc cap)"
proof -
  have "cap_rel (N ctx) (bits frc) (INFTY ctx) (snd s) (snd (fold (forced_step ctx del) xs s)) \<and>
        ((\<forall>j \<in> set xs. \<not> test del j) \<longrightarrow> fst (fold (forced_step ctx del) xs s) = fst s)"
    if "set xs \<subseteq> bits frc" for xs s
    using that
  proof (induction xs arbitrary: s)
    case Nil
    then show ?case by (simp add: cap_rel_refl)
  next
    case (Cons j xs)
    have j: "j \<in> bits frc" "j < N ctx" using Cons.prems assms(3) bits_less by fastforce+
    let ?s = "forced_step ctx del j s"
    let ?c1 = "(snd s)[cell_edge_idx ctx ! j := INFTY ctx]"
    have 1: "cap_rel (N ctx) (bits frc) (INFTY ctx) (snd s) ?c1"
      using j assms(1) by (intro cap_rel_update) auto
    have 2: "cap_rel (N ctx) (bits frc) (INFTY ctx) ?c1 (?c1[src_edge_idx ctx ! j := INFTY ctx])"
    proof (intro cap_rel_update)
      show "INFTY ctx = 0 \<or> INFTY ctx = INFTY ctx" by simp
      show "\<forall>i < N ctx. i \<notin> bits frc \<longrightarrow> src_edge_idx ctx ! j \<noteq> 2 * i"
      proof (intro allI impI)
        fix i assume "i < N ctx"
        moreover have "2 * N ctx \<le> src_edge_idx ctx ! j" using assms(2) j by simp
        ultimately show "src_edge_idx ctx ! j \<noteq> 2 * i" by simp
      qed
    qed
    have s1: "cap_rel (N ctx) (bits frc) (INFTY ctx) (snd s) (snd ?s)"
      using cap_rel_trans [OF 1 2] by (simp add: forced_step_def cap_rel_refl)
    have s2: "\<not> test del j \<longrightarrow> fst ?s = fst s" by (simp add: forced_step_def)
    have IH: "cap_rel (N ctx) (bits frc) (INFTY ctx) (snd ?s) (snd (fold (forced_step ctx del) xs ?s))"
      "(\<forall>j \<in> set xs. \<not> test del j) \<longrightarrow> fst (fold (forced_step ctx del) xs ?s) = fst ?s"
      using Cons.IH [of ?s] Cons.prems by simp_all
    show ?case using cap_rel_trans [OF s1 IH(1)] IH(2) s2 by simp
  qed
  from this [of "set_bits frc" "(True, cap)"]
  show "cap_rel (N ctx) (bits frc) (INFTY ctx) cap (snd (patch_forced ctx del frc cap))"
    and "(\<forall>j \<in> bits frc. \<not> test del j) \<Longrightarrow> fst (patch_forced ctx del frc cap)"
    by (simp_all add: patch_forced_fold)
qed

lemma extract_sep_spec:
  "length (extract_sep ctx del frc can) = N ctx \<and>
   bits (extract_sep ctx del frc can) =
     {i. i < N ctx \<and> wallable ctx ! i \<and> \<not> test del i \<and> \<not> test frc i \<and>
         \<not> can ! (2 * i) \<and> can ! (2 * i + 1)}"
proof -
  let ?P = "\<lambda>i. wallable ctx ! i \<and> \<not> test del i \<and> \<not> test frc i \<and> \<not> can ! (2 * i) \<and> can ! (2 * i + 1)"
  have "(\<lambda>i sep_out.
             if \<not> wallable ctx ! i then sep_out
             else if test del i \<or> test frc i then sep_out
             else if \<not> can ! (2 * i) \<and> can ! (2 * i + 1) then bset sep_out i
             else sep_out) = (\<lambda>i b. if ?P i then bset b i else b)"
    by (intro ext) auto
  then have e: "extract_sep ctx del frc can
      = fold (\<lambda>i b. if ?P i then bset b i else b) [0..<N ctx] (init (N ctx))"
    by (simp add: extract_sep_def)
  show ?thesis unfolding e using fold_bset_upt [of "N ctx" "init (N ctx)" ?P] by simp
qed

lemma bits_empty_init: "bits b = {} \<Longrightarrow> b = init (length b)"
  by (auto simp: bits_def init_def list_eq_iff_nth_eq)

lemma ctx_okD:
  assumes "ctx_ok k ctx"
  shows "length (gadj ctx) = N ctx" "adj_ok (gadj ctx)" "length (wallable ctx) = N ctx"
    "length (boundary ctx) = N ctx" "INFTY ctx = k + 1" "node_count ctx = 2 * N ctx + 2"
    "SRC ctx = 2 * N ctx" "SNK ctx = 2 * N ctx + 1"
    "net_ok (2 * N ctx + 2) (k + 1) (2 * N ctx + 1, boundary ctx) (flow ctx)"
    "cells_done (wallable ctx) (k + 1) (N ctx) (flow ctx)"
    "length (cell_edge_idx ctx) = N ctx" "\<forall>i < N ctx. cell_edge_idx ctx ! i = 2 * i"
    "length (src_edge_idx ctx) = N ctx" "\<forall>i < N ctx. 2 * N ctx \<le> src_edge_idx ctx ! i"
    "ft_wf (flow ctx)" "nn (flow ctx) = 2 * N ctx + 2"
  using assms by (simp_all add: ctx_ok_def net_ok_def)

lemma min_separator_spec:
  assumes ok: "ctx_ok k ctx" and ld: "length del = N ctx" and lf: "length frc = N ctx"
  shows "\<exists>r. min_separator ctx del frc kr = Some r \<and>
     (\<forall>sep. r = Some sep \<longrightarrow>
        length sep = N ctx \<and>
        bits sep \<subseteq> {i. i < N ctx \<and> wallable ctx ! i \<and> i \<notin> bits del \<and> i \<notin> bits frc} \<and>
        0 \<le> kr \<and>
        (0 \<le> k + 1 \<and> \<not> wallable ctx ! horse_idx \<longrightarrow> int (card (bits sep)) \<le> kr)) \<and>
     (bits (boundary ctx) = {} \<and> 0 \<le> kr \<and> bits del \<inter> bits frc = {} \<longrightarrow> r = Some (init (N ctx)))"
proof -
  let ?ft = "flow ctx"
  let ?m = "length (to ?ft)"
  let ?cap1 = "patch_deleted ctx del (base_cap ?ft)"
  let ?pf = "patch_forced ctx del frc ?cap1"
  let ?cap2 = "snd ?pf"
  note c = ctx_okD [OF ok]
  have wf: "ft_wf ?ft" by (rule c(15))
  have lb: "length (base_cap ?ft) = ?m" using wf by (simp add: ft_wf_def)
  have r1: "cap_rel (N ctx) (bits del) (INFTY ctx) (base_cap ?ft) ?cap1"
    using patch_deleted_rel [OF c(12) ld] .
  have r2: "cap_rel (N ctx) (bits frc) (INFTY ctx) ?cap1 ?cap2"
    using patch_forced_rel(1) [OF c(12) c(14) lf] .
  have l2: "length ?cap2 = ?m" using r1 r2 lb by (simp add: cap_rel_def)
  have s: "SRC ctx < nn ?ft" "SNK ctx < nn ?ft" "SRC ctx \<noteq> SNK ctx" using c(7,8,16) by simp_all
  obtain f cap where mf: "maxflow_loop ?ft (SRC ctx) (SNK ctx) (kr + 1) 0 ?cap2 = Some (f, cap)"
    "flow_ok ?ft ?cap2 cap (SRC ctx) (SNK ctx) f" "0 \<le> f"
    "(\<forall>e < ?m. to ?ft ! e \<noteq> SNK ctx) \<longrightarrow> f = 0 \<and> cap = ?cap2"
    using maxflow_loop_total [OF wf s flow_ok_init [OF l2], of "kr + 1"] by blast
  let ?can0 = "(replicate (node_count ctx) False)[SNK ctx := True]"
  have can0: "?can0 = bset (init (nn ?ft)) (SNK ctx)" by (simp only: bset_def init_def c(6) c(16))
  have b0: "bits ?can0 = {SNK ctx}" unfolding can0 using s(2) by (simp add: bits_bset)
  have l0: "length ?can0 = nn ?ft" by (simp only: length_list_update length_replicate c(6) c(16))
  obtain can where rl: "residual_loop ?ft cap ?can0 [SNK ctx] = Some can" "length can = nn ?ft"
    "bits ?can0 \<subseteq> bits can" "\<forall>v \<in> bits can. res_closed ?ft cap can v"
    using residual_loop_total [OF wf l0, of "[SNK ctx]" cap] b0 by auto
  let ?sep = "extract_sep ctx del frc can"
  have es: "length ?sep = N ctx"
    "bits ?sep = {i. i < N ctx \<and> wallable ctx ! i \<and> \<not> test del i \<and> \<not> test frc i \<and>
         \<not> can ! (2 * i) \<and> can ! (2 * i + 1)}"
    using extract_sep_spec [of ctx del frc can] by simp_all
  have sub: "bits ?sep \<subseteq> {i. i < N ctx \<and> wallable ctx ! i \<and> i \<notin> bits del \<and> i \<notin> bits frc}"
  proof
    fix i assume "i \<in> bits ?sep"
    then have "i < N ctx" "wallable ctx ! i" "\<not> test del i" "\<not> test frc i"
      unfolding es(2) by simp_all
    then show "i \<in> {i. i < N ctx \<and> wallable ctx ! i \<and> i \<notin> bits del \<and> i \<notin> bits frc}"
      using ld lf by (simp add: test_bits)
  qed
  have bound: "int (card (bits ?sep)) \<le> f" if k0: "0 \<le> k + 1" and nw: "\<not> wallable ctx ! horse_idx"
  proof -
    have nb: "\<forall>e < length (base_cap ?ft). 0 \<le> base_cap ?ft ! e"
      using c(9) k0 lb by (simp add: net_ok_def)
    have n1: "\<forall>e < length ?cap1. 0 \<le> ?cap1 ! e"
      using r1 nb k0 c(5) by (simp add: cap_rel_def)
    have n2: "\<forall>e < ?m. 0 \<le> ?cap2 ! e"
      using r2 n1 k0 c(5) l2 by (simp add: cap_rel_def)
    let ?S = "(\<lambda>i. 2 * i) ` bits ?sep"
    have S: "?S \<subseteq> {e. e < ?m \<and> frm ?ft ! e \<notin> bits can \<and> to ?ft ! e \<in> bits can \<and> 1 \<le> ?cap2 ! e}"
    proof
      fix e assume "e \<in> ?S"
      then obtain i where i: "e = 2 * i" "i \<in> bits ?sep" by auto
      then have "i < N ctx \<and> wallable ctx ! i \<and> \<not> test del i \<and> \<not> test frc i \<and>
           \<not> can ! (2 * i) \<and> can ! (2 * i + 1)"
        unfolding es(2) by simp
      moreover have "i \<notin> bits del \<and> i \<notin> bits frc" using sub i(2) by blast
      ultimately have i': "i < N ctx" "wallable ctx ! i" "i \<notin> bits del" "i \<notin> bits frc"
        "\<not> can ! (2 * i)" "can ! (2 * i + 1)"
        by simp_all
      have cd: "2 * N ctx \<le> ?m" "frm ?ft ! (2 * i) = 2 * i" "to ?ft ! (2 * i) = 2 * i + 1"
        "base_cap ?ft ! (2 * i) = cell_cap (wallable ctx) (k + 1) i"
        using c(10) i'(1) by (simp_all add: cells_done_def)
      have "i \<noteq> horse_idx" using nw i'(2) by auto
      then have "base_cap ?ft ! (2 * i) = 1" using cd(4) i'(2) by (simp add: cell_cap_def)
      moreover have "?cap1 ! (2 * i) = base_cap ?ft ! (2 * i)"
        using r1 i'(1,3) by (simp add: cap_rel_def)
      moreover have "?cap2 ! (2 * i) = ?cap1 ! (2 * i)"
        using r2 i'(1,4) by (simp add: cap_rel_def)
      ultimately have "?cap2 ! (2 * i) = 1" by simp
      moreover have "2 * i \<notin> bits can" using i'(5) by (simp add: bits_def)
      moreover have "2 * i + 1 \<in> bits can" using i'(1,6) rl(2) c(16) by (simp add: bits_def)
      moreover have "2 * i < ?m" using cd(1) i'(1) by simp
      ultimately show "e \<in> {e. e < ?m \<and> frm ?ft ! e \<notin> bits can \<and> to ?ft ! e \<in> bits can \<and> 1 \<le> ?cap2 ! e}"
        using i(1) cd(2,3) by simp
    qed
    have t: "SNK ctx \<in> bits can" using rl(3) b0 by simp
    have "int (card ?S) \<le> f"
      using cut_bound [OF wf mf(2) mf(3) rl(2) rl(4) t n2 S] .
    moreover have "card ?S = card (bits ?sep)" by (intro card_image) (simp add: inj_on_def)
    ultimately show ?thesis by simp
  qed
  define r where "r = (if \<not> fst ?pf then None else if f > kr then None else Some ?sep)"
  have ms: "min_separator ctx del frc kr = Some r"
    using mf(1) rl(1) unfolding r_def min_separator_def maxflow_limit_def
    by (simp add: Let_def split_beta)
  have p1: "length sep = N ctx \<and>
        bits sep \<subseteq> {i. i < N ctx \<and> wallable ctx ! i \<and> i \<notin> bits del \<and> i \<notin> bits frc} \<and>
        0 \<le> kr \<and>
        (0 \<le> k + 1 \<and> \<not> wallable ctx ! horse_idx \<longrightarrow> int (card (bits sep)) \<le> kr)"
    if "r = Some sep" for sep
  proof -
    have e: "sep = ?sep" "\<not> f > kr" using that unfolding r_def by (auto split: if_splits)
    show ?thesis unfolding e(1) using es(1) sub e(2) mf(3) bound by auto
  qed
  have p2: "r = Some (init (N ctx))"
    if h: "bits (boundary ctx) = {}" "0 \<le> kr" "bits del \<inter> bits frc = {}"
  proof -
    have ns: "\<forall>e < ?m. to ?ft ! e \<noteq> SNK ctx"
    proof (intro allI impI notI)
      fix e assume "e < ?m" "to ?ft ! e = SNK ctx"
      then have "\<exists>i \<in> bits (boundary ctx). frm ?ft ! e = 2 * i + 1"
        using c(9) c(8) by (simp add: net_ok_def)
      then show False using h(1) by simp
    qed
    then have f0: "f = 0" "cap = ?cap2" using mf(4) by simp_all
    have okf: "fst ?pf"
    proof (rule patch_forced_rel(2) [OF c(12) c(14) lf])
      show "\<forall>j \<in> bits frc. \<not> test del j"
        using h(3) ld lf bits_less by (fastforce simp: test_bits)
    qed
    have "set (in_adj ?ft ! SNK ctx) = {}" using wf s(2) ns by (auto simp: ft_wf_def)
    then have ia: "in_adj ?ft ! SNK ctx = []" by simp
    have "residual_loop ?ft cap ?can0 [SNK ctx] = residual_loop ?ft cap ?can0 []"
      using ia by (subst residual_loop.simps) simp
    also have "\<dots> = Some ?can0" by (subst residual_loop.simps) simp
    finally have "can = ?can0" using rl(1) by simp
    moreover have "\<not> ?can0 ! (2 * i + 1)" if "i < N ctx" for i
    proof -
      have ne: "SNK ctx \<noteq> 2 * i + 1" using c(8) that by simp
      have lt: "2 * i + 1 < node_count ctx" using c(6) that by simp
      have "?can0 ! (2 * i + 1) = replicate (node_count ctx) False ! (2 * i + 1)"
        using ne by (rule nth_list_update_neq)
      also have "\<dots> = False" using lt by (rule nth_replicate)
      finally show ?thesis by simp
    qed
    ultimately have "bits ?sep = {}" unfolding es(2) by blast
    then have "?sep = init (N ctx)" using bits_empty_init [of ?sep] es(1) by simp
    then show ?thesis unfolding r_def using okf f0 h(2) by simp
  qed
  show ?thesis using ms p1 p2 by blast
qed

lemma bfs_reachable_spec:
  assumes ok: "ctx_ok k ctx" and lb: "length blocked = N ctx" and n0: "0 < N ctx"
  shows "\<exists>vis area esc. bfs_reachable ctx blocked = Some (vis, area, esc) \<and> length vis = N ctx \<and>
           0 \<le> area \<and>
           (test blocked horse_idx \<longrightarrow> esc) \<and>
           (\<not> test blocked horse_idx \<longrightarrow>
              horse_idx \<in> bits vis \<and> (\<forall>u \<in> bits vis. closed_under (gadj ctx) blocked vis u) \<and>
              area = int (card (bits vis)) \<and> (esc \<longleftrightarrow> bits vis \<inter> bits (boundary ctx) \<noteq> {}))"
proof (cases "test blocked horse_idx")
  case True
  then show ?thesis
    by (intro exI [of _ "init (N ctx)"] exI [of _ 0] exI [of _ True]) (simp add: bfs_reachable_def)
next
  case False
  note c = ctx_okD [OF ok]
  let ?v0 = "bset (init (N ctx)) horse_idx"
  have h: "horse_idx < N ctx" using n0 by (simp add: horse_idx_def)
  have b0: "bits ?v0 = {horse_idx}" using h by (simp add: bits_bset)
  have l0: "length ?v0 = length (gadj ctx)" using c(1) by simp
  obtain vis where r: "reach_loop (gadj ctx) blocked ?v0 [horse_idx] = Some vis"
    "length vis = length (gadj ctx)" "bits ?v0 \<subseteq> bits vis"
    "\<forall>u \<in> bits vis. closed_under (gadj ctx) blocked vis u"
    using reach_loop_total [OF c(2) l0, of "[horse_idx]" blocked] b0 by auto
  have lv: "length (boundary ctx) = length vis" using r(2) c(1,4) by simp
  have "bfs_reachable ctx blocked = Some (vis, popcount vis, intersects vis (boundary ctx))"
    using False r(1) by (simp add: bfs_reachable_def)
  then show ?thesis
    using False r(2,3,4) b0 c(1) intersects_bits [OF lv] by (simp add: popcount_card)
qed

lemma dfs_post_refl: "g_ok ctx k g \<Longrightarrow> dfs_post ctx k g g"
  by (simp add: dfs_post_def)

lemma dfs_post_trans: "dfs_post ctx k a b \<Longrightarrow> dfs_post ctx k b c \<Longrightarrow> dfs_post ctx k a c"
  by (auto simp: dfs_post_def)

lemma card_bits_le: "card (bits b) \<le> length b"
proof -
  have "bits b \<subseteq> {..<length b}" by (auto simp: bits_def)
  then have "card (bits b) \<le> card {..<length b}" by (intro card_mono) simp_all
  then show ?thesis by simp
qed

lemma children_ok:
  assumes ok: "ctx_ok k ctx" and nw: "\<not> wallable ctx ! horse_idx"
    and s: "st_ok ctx k (deleted st) (forced st) (k_rem st)"
    and ch: "dfs_children ctx st = Some cs" and c: "c \<in> set cs"
  shows "st_ok ctx k (deleted c) (forced c) (k_rem c) \<and> 0 \<le> k_rem c \<and>
         ((k_rem c = k_rem st \<and> deleted c = deleted st \<and>
           card (bits (forced c)) = card (bits (forced st)) + 1) \<or>
          (k_rem c = k_rem st - 1 \<and> forced c = forced st \<and>
           card (bits (deleted c)) = card (bits (deleted st)) + 1))"
proof -
  let ?del = "deleted st" and ?frc = "forced st" and ?kr = "k_rem st"
  note s' = s [unfolded st_ok_def]
  have ld: "length ?del = N ctx" and lf: "length ?frc = N ctx" using s' by simp_all
  obtain r where ms: "min_separator ctx ?del ?frc ?kr = Some r"
    "\<forall>sep. r = Some sep \<longrightarrow>
      length sep = N ctx \<and>
      bits sep \<subseteq> {i. i < N ctx \<and> wallable ctx ! i \<and> i \<notin> bits ?del \<and> i \<notin> bits ?frc} \<and>
      0 \<le> ?kr \<and>
      (0 \<le> k + 1 \<and> \<not> wallable ctx ! horse_idx \<longrightarrow> int (card (bits sep)) \<le> ?kr)"
    using min_separator_spec [OF ok ld lf, of ?kr] by blast
  have ne: "cs \<noteq> []" using c by auto
  obtain sep where r: "r = Some sep" using ch ms(1) ne
    by (cases r) (auto simp: dfs_children_def)
  have sp: "bits sep \<subseteq> {i. i < N ctx \<and> wallable ctx ! i \<and> i \<notin> bits ?del \<and> i \<notin> bits ?frc}"
    "0 \<le> ?kr" using ms(2) r by simp_all
  have c4: "\<not> (?kr = 0 \<or> bempty sep)" "\<not> first_set_bit sep < 0"
    using ch ms(1) r ne by (auto simp: dfs_children_def Let_def split: if_splits)
  let ?v = "nat (first_set_bit sep)"
  have cs: "cs = [\<lparr>deleted = ?del, forced = bset ?frc ?v, k_rem = ?kr\<rparr>,
                  \<lparr>deleted = bset ?del ?v, forced = ?frc, k_rem = ?kr - 1\<rparr>]"
    using ch ms(1) r c4 by (simp add: dfs_children_def Let_def)
  have v: "?v \<in> bits sep" using c4(2) by (rule first_set_bit_mem)
  then have v': "?v < N ctx" "wallable ctx ! ?v" "?v \<notin> bits ?del" "?v \<notin> bits ?frc"
    using sp(1) by auto
  have kp: "0 < ?kr" using c4(1) sp(2) by simp
  have bf: "bits (bset ?frc ?v) = insert ?v (bits ?frc)" using v'(1) lf by (simp add: bits_bset)
  have bd: "bits (bset ?del ?v) = insert ?v (bits ?del)" using v'(1) ld by (simp add: bits_bset)
  have vh: "?v \<noteq> horse_idx" using v'(4) s' by auto
  have st1: "st_ok ctx k ?del (bset ?frc ?v) ?kr"
    unfolding st_ok_def using s' bf v'(3) by auto
  have st2: "st_ok ctx k (bset ?del ?v) ?frc (?kr - 1)"
    unfolding st_ok_def using s' bd v' vh by (auto simp: card_insert_if)
  have c1: "card (bits (bset ?frc ?v)) = card (bits ?frc) + 1" using bf v'(4) by simp
  have c2: "card (bits (bset ?del ?v)) = card (bits ?del) + 1" using bd v'(3) by simp
  from c cs consider "c = \<lparr>deleted = ?del, forced = bset ?frc ?v, k_rem = ?kr\<rparr>"
    | "c = \<lparr>deleted = bset ?del ?v, forced = ?frc, k_rem = ?kr - 1\<rparr>" by auto
  then show ?thesis
  proof cases
    case 1
    then show ?thesis using st1 c1 kp by simp
  next
    case 2
    then show ?thesis using st2 c2 kp by simp
  qed
qed

lemma reach_st_ok:
  assumes ok: "ctx_ok k ctx" and n0: "0 < N ctx" and nw: "\<not> wallable ctx ! horse_idx"
    and r: "reach_st ctx k st"
  shows "st_ok ctx k (deleted st) (forced st) (k_rem st)"
  using r
proof (induction rule: reach_st.induct)
  case start
  have "horse_idx < N ctx" using n0 by (simp add: horse_idx_def)
  then show ?case by (simp add: st_ok_def bits_bset)
next
  case (branch st cs c)
  then show ?case using children_ok [OF ok nw] by blast
qed

lemma dfs_total:
  assumes ok: "ctx_ok k ctx" and n0: "0 < N ctx" and nw: "\<not> wallable ctx ! horse_idx"
    and "reach_st ctx k \<lparr>deleted = del, forced = frc, k_rem = kr\<rparr>" and "g_ok ctx k g"
  shows "\<exists>g'. dfs ctx del frc kr g = Some g' \<and> dfs_post ctx k g g' \<and>
           \<lparr>deleted = del, forced = frc, k_rem = kr\<rparr> \<in> visited_states g'"
  using assms(4,5)
proof (induction "nat kr * (N ctx + 1) + (N ctx - card (bits frc))" arbitrary: del frc kr g
    rule: less_induct)
  case less
  let ?st = "\<lparr>deleted = del, forced = frc, k_rem = kr\<rparr>"
  have sok: "st_ok ctx k del frc kr" using reach_st_ok [OF ok n0 nw less.prems(1)] by simp
  note s = sok [unfolded st_ok_def]
  have ld: "length del = N ctx" and lf: "length frc = N ctx" using s by simp_all
  show ?case
  proof (cases "?st \<in> visited_states g")
    case True
    then have "dfs ctx del frc kr g = Some g" by (subst dfs.simps) simp
    then show ?thesis using True less.prems(2) by (simp add: dfs_post_refl)
  next
    case nv: False
    let ?g1 = "g\<lparr>visited_states := insert ?st (visited_states g)\<rparr>"
    have b1: "bfs_reachable ctx (cur_walls ?g1) = bfs_reachable ctx (cur_walls g)" by simp
    have g1: "g_ok ctx k ?g1" using less.prems unfolding g_ok_def by simp
    have p1: "dfs_post ctx k g ?g1" using g1 by (auto simp: dfs_post_def)
    have in1: "?st \<in> visited_states ?g1" by simp
    obtain vis_now ub_area esc1 where r1: "bfs_reachable ctx del = Some (vis_now, ub_area, esc1)"
      "length vis_now = N ctx"
      using bfs_reachable_spec [OF ok ld n0] by blast
    show ?thesis
    proof (cases "ub_area \<le> cur_area g \<or> \<not> subset_of frc vis_now")
      case True
      then have "dfs ctx del frc kr g = Some ?g1"
        using nv r1(1) by (subst dfs.simps) (auto simp: Let_def)
      then show ?thesis using p1 in1 by simp
    next
      case c2: False
      obtain r where ms: "min_separator ctx del frc kr = Some r"
        "\<forall>sep. r = Some sep \<longrightarrow>
          length sep = N ctx \<and>
          bits sep \<subseteq> {i. i < N ctx \<and> wallable ctx ! i \<and> i \<notin> bits del \<and> i \<notin> bits frc} \<and>
          0 \<le> kr \<and>
          (0 \<le> k + 1 \<and> \<not> wallable ctx ! horse_idx \<longrightarrow> int (card (bits sep)) \<le> kr)"
        using min_separator_spec [OF ok ld lf, of kr] by blast
      show ?thesis
      proof (cases r)
        case None
        then have "dfs ctx del frc kr g = Some ?g1"
          using nv r1(1) c2 ms(1) by (subst dfs.simps) (simp add: Let_def)
        then show ?thesis using p1 in1 by simp
      next
        case (Some sep)
        have sp: "length sep = N ctx"
          "bits sep \<subseteq> {i. i < N ctx \<and> wallable ctx ! i \<and> i \<notin> bits del \<and> i \<notin> bits frc}"
          "0 \<le> kr"
          using ms(2) Some by simp_all
        have kk: "0 \<le> k + 1" using sp(3) s by simp
        have cs: "int (card (bits sep)) \<le> kr" using ms(2) Some kk nw by simp
        let ?cand = "or_with del sep"
        have lc: "length ?cand = N ctx" using ld by simp
        have bc: "bits ?cand = bits del \<union> bits sep" using bits_or_with [of sep del] ld sp(1) by simp
        have cw: "bits ?cand \<subseteq> {i. i < N ctx \<and> wallable ctx ! i}" using bc s sp(2) by auto
        have "card (bits ?cand) \<le> card (bits del) + card (bits sep)"
          unfolding bc by (rule card_Un_le)
        then have cc: "int (card (bits ?cand)) \<le> k" using cs s by simp
        obtain vis2 area2 escapes2 where r2: "bfs_reachable ctx ?cand = Some (vis2, area2, escapes2)"
          using bfs_reachable_spec [OF ok lc n0] by blast
        let ?g2 = "if \<not> escapes2 \<and> area2 > cur_area ?g1
                   then ?g1\<lparr>cur_area := area2, cur_walls := ?cand\<rparr> else ?g1"
        have a0: "0 \<le> cur_area g" using less.prems(2) unfolding g_ok_def by auto
        have g2: "g_ok ctx k ?g2"
        proof (cases "\<not> escapes2 \<and> area2 > cur_area ?g1")
          case True
          then have "0 < area2" using a0 by simp
          then show ?thesis using True g1 lc cw cc r2 unfolding g_ok_def by simp
        next
          case False
          then have "?g2 = ?g1" by auto
          then show ?thesis using g1 by simp
        qed
        have p2: "dfs_post ctx k g ?g2" using g2 by (auto simp: dfs_post_def)
        have in2: "?st \<in> visited_states ?g2" by simp
        show ?thesis
        proof (cases "kr = 0 \<or> bempty sep \<or> first_set_bit sep < 0")
          case True
          then have "dfs ctx del frc kr g = Some ?g2"
            using nv r1(1) c2 ms(1) Some r2
            by (subst dfs.simps) (auto simp: Let_def)
          then show ?thesis using p2 in2 by simp
        next
          case c4: False
          let ?v = "nat (first_set_bit sep)"
          have v: "?v \<in> bits sep" using c4 first_set_bit_mem by simp
          then have v': "?v < N ctx" "wallable ctx ! ?v" "?v \<notin> bits del" "?v \<notin> bits frc"
            using sp(2) by auto
          have kp: "0 < kr" using c4 sp(3) by simp
          let ?f2 = "bset frc ?v"
          let ?d2 = "bset del ?v"
          have bf: "bits ?f2 = insert ?v (bits frc)" using v'(1) lf by (simp add: bits_bset)
          have bd: "bits ?d2 = insert ?v (bits del)" using v'(1) ld by (simp add: bits_bset)
          have vh: "?v \<noteq> horse_idx" using v'(4) s by auto
          have ch: "dfs_children ctx ?st = Some [\<lparr>deleted = del, forced = ?f2, k_rem = kr\<rparr>,
                \<lparr>deleted = ?d2, forced = frc, k_rem = kr - 1\<rparr>]"
            using ms(1) Some c4 by (simp add: dfs_children_def Let_def)
          have st1: "reach_st ctx k \<lparr>deleted = del, forced = ?f2, k_rem = kr\<rparr>"
            using reach_st.branch [OF less.prems(1) ch] by simp
          have st2: "reach_st ctx k \<lparr>deleted = ?d2, forced = frc, k_rem = kr - 1\<rparr>"
            using reach_st.branch [OF less.prems(1) ch] by simp
          have "card (bits ?f2) = card (bits frc) + 1" using bf v'(4) by simp
          moreover have "card (bits ?f2) \<le> N ctx" using card_bits_le [of ?f2] lf by simp
          ultimately have m1: "nat kr * (N ctx + 1) + (N ctx - card (bits ?f2))
              < nat kr * (N ctx + 1) + (N ctx - card (bits frc))" by simp
          obtain g3 where d1: "dfs ctx del ?f2 kr ?g2 = Some g3" "dfs_post ctx k ?g2 g3"
            using less.hyps [OF m1 st1 g2] by blast
          have g3: "g_ok ctx k g3" using d1(2) by (simp add: dfs_post_def)
          have "nat (kr - 1) + 1 = nat kr" using kp by simp
          then have "nat kr * (N ctx + 1) = nat (kr - 1) * (N ctx + 1) + (N ctx + 1)"
            by (metis add.commute mult_Suc Suc_eq_plus1)
          then have m2: "nat (kr - 1) * (N ctx + 1) + (N ctx - card (bits frc))
              < nat kr * (N ctx + 1) + (N ctx - card (bits frc))" by simp
          obtain g4 where d2: "dfs ctx ?d2 frc (kr - 1) g3 = Some g4" "dfs_post ctx k g3 g4"
            using less.hyps [OF m2 st2 g3] by blast
          have "dfs ctx del frc kr g = Some g4"
            using nv r1(1) c2 ms(1) Some r2 c4 d1(1) d2(1)
            by (subst dfs.simps) (simp add: Let_def)
          moreover have "dfs_post ctx k g g4" using p2 d1(2) d2(2) dfs_post_trans by blast
          moreover have "?st \<in> visited_states g4"
            using in2 d1(2) d2(2) unfolding dfs_post_def by blast
          ultimately show ?thesis by simp
        qed
      qed
    qed
  qed
qed

lemma find_in_row_Some:
  assumes "find_in_row grid C r = Some c"
  shows "0 \<le> c" "c < C" "cell_at grid r c = CHR ''H''"
proof -
  have "c \<in> set (map int [0..<nat C]) \<and> cell_at grid r c = CHR ''H''"
    using assms unfolding find_in_row_def find_Some_iff by (metis nth_mem)
  then show "0 \<le> c" "c < C" "cell_at grid r c = CHR ''H''" by auto
qed

lemma find_in_row_None:
  assumes "find_in_row grid C r = None" "0 \<le> c" "c < C"
  shows "cell_at grid r c \<noteq> CHR ''H''"
proof -
  have "c \<in> set (map int [0..<nat C])" using assms(2,3) by (auto simp: image_iff intro!: bexI [of _ "nat c"])
  then show ?thesis using assms(1) unfolding find_in_row_def find_None_iff by blast
qed

lemma find_horse_Some:
  assumes "find_horse grid C rs = Some h"
  shows "fst h \<in> set rs \<and> 0 \<le> snd h \<and> snd h < C \<and> cell_at grid (fst h) (snd h) = CHR ''H''"
  using assms
proof (induction rs)
  case Nil
  then show ?case by simp
next
  case (Cons r rs)
  show ?case
  proof (cases "find_in_row grid C r")
    case None
    then show ?thesis using Cons by simp
  next
    case (Some c)
    then have "h = (r, c)" using Cons.prems by simp
    then show ?thesis using find_in_row_Some [OF Some] by simp
  qed
qed

lemma find_horse_None:
  assumes "find_horse grid C rs = None" "r \<in> set rs" "0 \<le> c" "c < C"
  shows "cell_at grid r c \<noteq> CHR ''H''"
  using assms(1,2)
proof (induction rs)
  case Nil
  then show ?case by simp
next
  case (Cons r' rs)
  then have n: "find_in_row grid C r' = None" "find_horse grid C rs = None"
    by (auto split: option.splits)
  show ?case
  proof (cases "r = r'")
    case True
    then show ?thesis using find_in_row_None [OF n(1) assms(3,4)] by simp
  next
    case False
    then show ?thesis using Cons n by simp
  qed
qed

lemma find_horse_in_grid:
  assumes "find_horse grid (width grid) (rows_of grid) = Some h"
  shows "in_grid (height grid) (width grid) h" "cell_at grid (fst h) (snd h) = CHR ''H''"
  using find_horse_Some [OF assms] by (auto simp: in_grid_def rows_of_def height_def)

lemma find_horse_ne:
  assumes "find_horse grid C (rows_of grid) = Some h"
  shows "grid \<noteq> []"
  using assms by (auto simp: rows_of_def)

lemma solve_unfold:
  assumes "grid \<noteq> []"
  shows "solve k grid =
     (case find_horse grid (width grid) (rows_of grid) of
        None \<Rightarrow> Some (Inl HorseMissing)
      | Some h \<Rightarrow>
          (case build k grid (height grid) (width grid) h of
             None \<Rightarrow> None
           | Some (ctx, coords) \<Rightarrow>
               if test (boundary ctx) horse_idx
               then Some (Inr \<lparr>best_area = 0, walls = []\<rparr>)
               else (case search k ctx of
                       None \<Rightarrow> None
                     | Some g \<Rightarrow>
                         Some (Inr \<lparr>best_area = cur_area g,
                                    walls = sort (map (\<lambda>i. coords ! i) (set_bits (cur_walls g)))\<rparr>))))"
  using assms unfolding solve_def Let_def rows_of_def width_def height_def by simp

lemma search_total:
  assumes ok: "ctx_ok k ctx" and n0: "0 < N ctx" and nw: "\<not> wallable ctx ! horse_idx"
  shows "\<exists>g. search k ctx = Some g \<and> g_ok ctx k g \<and>
           \<lparr>deleted = init (N ctx), forced = bset (init (N ctx)) horse_idx, k_rem = k\<rparr> \<in> visited_states g"
proof -
  let ?g0 = "\<lparr>cur_area = 0, cur_walls = init (N ctx), visited_states = {}\<rparr>"
  have h: "horse_idx < N ctx" using n0 by (simp add: horse_idx_def)
  have s: "reach_st ctx k \<lparr>deleted = init (N ctx), forced = bset (init (N ctx)) horse_idx, k_rem = k\<rparr>"
    by (rule reach_st.start)
  have g: "g_ok ctx k ?g0" by (simp add: g_ok_def)
  show ?thesis
    using dfs_total [OF ok n0 nw s g] unfolding search_def dfs_post_def by blast
qed

lemma solved_exists:
  assumes "find_horse grid (width grid) (rows_of grid) = Some h" "width grid \<le> 2 ^ 31"
  shows "\<exists>ctx coords. solved k grid h ctx coords"
proof -
  have ig: "in_grid (height grid) (width grid) h" and hh: "cell_at grid (fst h) (snd h) = CHR ''H''"
    using find_horse_in_grid [OF assms(1)] by simp_all
  obtain ctx coords where b: "build k grid (height grid) (width grid) h = Some (ctx, coords)"
    "built grid (height grid) (width grid) h k ctx coords"
    using build_total [OF ig assms(2)] by blast
  obtain idx_of where inv: "idx_inv grid (height grid) (width grid) idx_of coords"
    using b(2) by (auto simp: built_def)
  have ne: "coords \<noteq> []" using inv by (simp add: idx_inv_def)
  then have n0: "0 < N ctx" using b(2) by (simp add: built_def)
  have g: "graph_ok grid (height grid) (width grid) coords (gadj ctx) (wallable ctx) (boundary ctx)"
    and c0: "coords ! 0 = h"
    using b(2) by (simp_all add: built_def)
  have "wallable ctx ! 0 \<longleftrightarrow> cell_at grid (fst (coords ! 0)) (snd (coords ! 0)) = CHR ''.''"
    using g ne unfolding graph_ok_def by simp
  then have nw: "\<not> wallable ctx ! horse_idx" using c0 hh by (simp add: horse_idx_def)
  show ?thesis unfolding solved_def using assms(1) b n0 nw by blast
qed

lemma solve_result:
  assumes s: "solved k grid h ctx coords"
  shows "(test (boundary ctx) horse_idx \<longrightarrow>
            solve k grid = Some (Inr \<lparr>best_area = 0, walls = []\<rparr>)) \<and>
         (\<not> test (boundary ctx) horse_idx \<longrightarrow>
            (\<exists>g. search k ctx = Some g \<and> g_ok ctx k g \<and>
                 solve k grid = Some (Inr \<lparr>best_area = cur_area g,
                      walls = sort (map (\<lambda>i. coords ! i) (set_bits (cur_walls g)))\<rparr>)))"
proof -
  have f: "find_horse grid (width grid) (rows_of grid) = Some h"
    and b: "build k grid (height grid) (width grid) h = Some (ctx, coords)"
    and ok: "ctx_ok k ctx" and n0: "0 < N ctx" and nw: "\<not> wallable ctx ! horse_idx"
    using s unfolding solved_def built_def by blast+
  obtain g where g: "search k ctx = Some g" "g_ok ctx k g"
    using search_total [OF ok n0 nw] by blast
  show ?thesis using f b g by (simp add: solve_unfold [OF find_horse_ne [OF f]])
qed

lemma valid_width:
  assumes "valid_grid grid"
  shows "width grid \<le> 2 ^ 31" "width grid = int (length (hd grid))"
proof -
  have "grid \<noteq> []" using assms by (simp add: valid_grid_def)
  then show w: "width grid = int (length (hd grid))" by (simp add: width_def hd_conv_nth)
  have "length (hd grid) < 2 ^ 31" using assms by (simp add: valid_grid_def)
  then have "int (length (hd grid)) < 2 ^ 31"
    by (metis of_nat_less_numeral_power_cancel_iff)
  then show "width grid \<le> 2 ^ 31" using w by simp
qed

lemma valid_has_horse:
  assumes v: "valid_grid grid"
  shows "\<exists>h. find_horse grid (width grid) (rows_of grid) = Some h"
proof (cases "find_horse grid (width grid) (rows_of grid)")
  case (Some h)
  then show ?thesis by blast
next
  case n: None
  have "filter (\<lambda>ch. ch = CHR ''H'') (concat grid) \<noteq> []"
    using v unfolding valid_grid_def by (metis length_0_conv zero_neq_one)
  then have "\<exists>ch \<in> set (concat grid). ch = CHR ''H''"
    by (simp only: filter_empty_conv) blast
  then have "CHR ''H'' \<in> set (concat grid)" by blast
  then obtain row where row: "row \<in> set grid" "CHR ''H'' \<in> set row"
    unfolding set_concat by blast
  then obtain r where r: "r < length grid" "grid ! r = row" by (auto simp: in_set_conv_nth)
  obtain c where c: "c < length row" "row ! c = CHR ''H''" using row(2) by (auto simp: in_set_conv_nth)
  have "list_all (\<lambda>row. length row = length (hd grid)) grid" using v by (simp add: valid_grid_def)
  then have "length row = length (hd grid)" using row(1) unfolding list_all_iff by blast
  then have cw: "int c < width grid" using c(1) valid_width(2) [OF v] by simp
  have "int r \<in> set (rows_of grid)" using r(1) by (simp add: rows_of_def)
  then have "cell_at grid (int r) (int c) \<noteq> CHR ''H''"
    using find_horse_None [OF n _ _ cw] by simp
  then have False using r(2) c(2) by (simp add: cell_at_def)
  then show ?thesis ..
qed

lemma valid_solved:
  assumes "valid_grid grid"
  shows "\<exists>h ctx coords. solved k grid h ctx coords"
  using valid_has_horse [OF assms] solved_exists valid_width(1) [OF assms] by blast

lemma walls_set:
  "set (sort (map (\<lambda>i. coords ! i) (set_bits b))) = (\<lambda>i. coords ! i) ` bits b"
  by simp

lemma walls_length:
  "length (sort (map (\<lambda>i. coords ! i) (set_bits b))) = card (bits b)"
  by (simp add: length_set_bits)

lemma solvedD:
  assumes "solved k grid h ctx coords"
  shows "find_horse grid (width grid) (rows_of grid) = Some h"
    "build k grid (height grid) (width grid) h = Some (ctx, coords)"
    "ctx_ok k ctx" "N ctx = length coords" "coords ! 0 = h"
    "\<exists>idx_of. idx_inv grid (height grid) (width grid) idx_of coords"
    "\<forall>p \<in> set coords. closed_at grid (height grid) (width grid) coords p"
    "graph_ok grid (height grid) (width grid) coords (gadj ctx) (wallable ctx) (boundary ctx)"
    "0 < N ctx" "\<not> wallable ctx ! horse_idx"
  using assms unfolding solved_def built_def by blast+

lemma g_okD:
  assumes "g_ok ctx k g"
  shows "length (cur_walls g) = N ctx"
    "bits (cur_walls g) \<subseteq> {i. i < N ctx \<and> wallable ctx ! i}"
    "(cur_area g = 0 \<and> bits (cur_walls g) = {}) \<or>
       (0 < cur_area g \<and> int (card (bits (cur_walls g))) \<le> k \<and>
        (\<exists>vis. bfs_reachable ctx (cur_walls g) = Some (vis, cur_area g, False)))"
    "\<forall>st \<in> visited_states g. reach_st ctx k st"
  using assms unfolding g_ok_def by blast+

text \<open>Claim C4: every wall that \<open>solve\<close> returns lies on a cell of the grid that is
  \<open>.\<close> in the input (so never \<open>H\<close> or \<open>#\<close>), and \<open>solve\<close> does return a result.\<close>

theorem walls_on_open_cells:
  assumes "valid_grid grid"
  shows "\<exists>res. solve k grid = Some (Inr res) \<and>
           (\<forall>p \<in> set (walls res). in_grid (height grid) (width grid) p \<and>
                cell_at grid (fst p) (snd p) = CHR ''.'')"
proof -
  obtain h ctx coords where s: "solved k grid h ctx coords" using valid_solved [OF assms] by blast
  note d = solvedD [OF s]
  obtain idx_of where inv: "idx_inv grid (height grid) (width grid) idx_of coords" using d(6) by blast
  show ?thesis
  proof (cases "test (boundary ctx) horse_idx")
    case True
    then have "solve k grid = Some (Inr \<lparr>best_area = 0, walls = []\<rparr>)"
      using solve_result [OF s] by simp
    then show ?thesis by simp
  next
    case False
    then obtain g where g: "search k ctx = Some g" "g_ok ctx k g"
      "solve k grid = Some (Inr \<lparr>best_area = cur_area g,
          walls = sort (map (\<lambda>i. coords ! i) (set_bits (cur_walls g)))\<rparr>)"
      using solve_result [OF s] by blast
    have "in_grid (height grid) (width grid) p \<and> cell_at grid (fst p) (snd p) = CHR ''.''"
      if "p \<in> set (sort (map (\<lambda>i. coords ! i) (set_bits (cur_walls g))))" for p
    proof -
      have "p \<in> (\<lambda>i. coords ! i) ` bits (cur_walls g)" using that by (simp only: walls_set)
      then obtain i where i: "i \<in> bits (cur_walls g)" "p = coords ! i" by blast
      then have i': "i < length coords" "wallable ctx ! i" using g_okD(2) [OF g(2)] d(4) by auto
      have "in_grid (height grid) (width grid) (coords ! i)"
        using idx_inv_in_grid [OF inv] i'(1) by simp
      moreover have "cell_at grid (fst (coords ! i)) (snd (coords ! i)) = CHR ''.''"
        using d(8) i' unfolding graph_ok_def by blast
      ultimately show ?thesis using i(2) by simp
    qed
    then show ?thesis using g(3) by simp
  qed
qed

theorem walls_on_open_cells_witness:
  "valid_grid [''#.#'', ''.H.'', ''#.#''] \<and>
   (\<exists>res. solve 4 [''#.#'', ''.H.'', ''#.#''] = Some (Inr res) \<and>
      (\<forall>p \<in> set (walls res). in_grid (height [''#.#'', ''.H.'', ''#.#'']) (width [''#.#'', ''.H.'', ''#.#'']) p \<and>
           cell_at [''#.#'', ''.H.'', ''#.#''] (fst p) (snd p) = CHR ''.''))"
proof -
  have v: "valid_grid [''#.#'', ''.H.'', ''#.#'']" by (simp add: valid_grid_def)
  show ?thesis using v walls_on_open_cells [OF v, of 4] by simp
qed

text \<open>Claim C3: for a budget \<open>k \<ge> 0\<close> the list of walls that \<open>solve\<close> returns has at
  most \<open>k\<close> elements.\<close>

theorem walls_within_budget:
  assumes "valid_grid grid" "0 \<le> k"
  shows "\<exists>res. solve k grid = Some (Inr res) \<and> int (length (walls res)) \<le> k"
proof -
  obtain h ctx coords where s: "solved k grid h ctx coords" using valid_solved [OF assms(1)] by blast
  show ?thesis
  proof (cases "test (boundary ctx) horse_idx")
    case True
    then have "solve k grid = Some (Inr \<lparr>best_area = 0, walls = []\<rparr>)"
      using solve_result [OF s] by simp
    then show ?thesis using assms(2) by simp
  next
    case False
    then obtain g where g: "search k ctx = Some g" "g_ok ctx k g"
      "solve k grid = Some (Inr \<lparr>best_area = cur_area g,
          walls = sort (map (\<lambda>i. coords ! i) (set_bits (cur_walls g)))\<rparr>)"
      using solve_result [OF s] by blast
    have "int (card (bits (cur_walls g))) \<le> k" using g_okD(3) [OF g(2)] assms(2) by auto
    then show ?thesis using g(3) by (simp add: length_set_bits)
  qed
qed

theorem walls_within_budget_witness:
  "valid_grid [''#.#'', ''.H.'', ''#.#''] \<and> (0::int) \<le> 4 \<and>
   (\<exists>res. solve 4 [''#.#'', ''.H.'', ''#.#''] = Some (Inr res) \<and> int (length (walls res)) \<le> 4)"
proof -
  have v: "valid_grid [''#.#'', ''.H.'', ''#.#'']" by (simp add: valid_grid_def)
  have k: "(0::int) \<le> 4" by simp
  show ?thesis using v k walls_within_budget [OF v k] by simp
qed

text \<open>Claim C7: every search state reachable from the initial call
  \<open>dfs(empty, {horse}, k)\<close> by the two branching steps has the horse in \<open>forced\<close> and
  not in \<open>deleted\<close>, only wallable cells in \<open>deleted\<close>, and \<open>deleted\<close> and \<open>forced\<close>
  disjoint.\<close>

theorem search_state_invariant:
  assumes "valid_grid grid"
  shows "\<exists>h ctx coords.
           find_horse grid (width grid) (rows_of grid) = Some h \<and>
           build k grid (height grid) (width grid) h = Some (ctx, coords) \<and>
           (\<forall>st. reach_st ctx k st \<longrightarrow>
              test (forced st) horse_idx \<and> \<not> test (deleted st) horse_idx \<and>
              (\<forall>i < N ctx. test (deleted st) i \<longrightarrow> wallable ctx ! i \<and> \<not> test (forced st) i))"
proof -
  obtain h ctx coords where s: "solved k grid h ctx coords" using valid_solved [OF assms] by blast
  note d = solvedD [OF s]
  have "test (forced st) horse_idx \<and> \<not> test (deleted st) horse_idx \<and>
        (\<forall>i < N ctx. test (deleted st) i \<longrightarrow> wallable ctx ! i \<and> \<not> test (forced st) i)"
    if "reach_st ctx k st" for st
  proof -
    have o: "st_ok ctx k (deleted st) (forced st) (k_rem st)"
      using reach_st_ok [OF d(3) d(9) d(10) that] .
    note o' = o [unfolded st_ok_def]
    have h0: "horse_idx < N ctx" using d(9) by (simp add: horse_idx_def)
    have t: "test (deleted st) i \<longleftrightarrow> i \<in> bits (deleted st)"
      "test (forced st) i \<longleftrightarrow> i \<in> bits (forced st)" if "i < N ctx" for i
      using that o' by (simp_all add: test_bits)
    show ?thesis using o' t h0 by auto
  qed
  then show ?thesis using d(1,2) by blast
qed

theorem search_state_invariant_witness:
  "valid_grid [''#.#'', ''.H.'', ''#.#''] \<and>
   (\<exists>h ctx coords.
      find_horse [''#.#'', ''.H.'', ''#.#''] (width [''#.#'', ''.H.'', ''#.#'']) (rows_of [''#.#'', ''.H.'', ''#.#'']) = Some h \<and>
      build 4 [''#.#'', ''.H.'', ''#.#''] (height [''#.#'', ''.H.'', ''#.#'']) (width [''#.#'', ''.H.'', ''#.#'']) h = Some (ctx, coords) \<and>
      (\<forall>st. reach_st ctx 4 st \<longrightarrow>
         test (forced st) horse_idx \<and> \<not> test (deleted st) horse_idx \<and>
         (\<forall>i < N ctx. test (deleted st) i \<longrightarrow> wallable ctx ! i \<and> \<not> test (forced st) i)))"
proof -
  have v: "valid_grid [''#.#'', ''.H.'', ''#.#'']" by (simp add: valid_grid_def)
  show ?thesis using v search_state_invariant [OF v, of 4] by simp
qed

text \<open>Claim C8: each recursive call of \<open>dfs\<close> either keeps \<open>k_rem\<close> and strictly
  increases \<open>|deleted| + |forced|\<close>, or strictly decreases \<open>k_rem\<close>; \<open>k_rem\<close> stays
  non-negative and \<open>|deleted| + |forced|\<close> at most \<open>2 N\<close>; and the search and \<open>solve\<close>
  return on every valid input.\<close>

theorem search_terminates:
  assumes "valid_grid grid"
  shows "(\<exists>res. solve k grid = Some (Inr res)) \<and>
         (\<exists>h ctx coords.
            find_horse grid (width grid) (rows_of grid) = Some h \<and>
            build k grid (height grid) (width grid) h = Some (ctx, coords) \<and>
            (\<exists>g. search k ctx = Some g) \<and>
            (\<forall>st cs c. reach_st ctx k st \<and> dfs_children ctx st = Some cs \<and> c \<in> set cs \<longrightarrow>
               0 \<le> k_rem c \<and>
               popcount (deleted c) + popcount (forced c) \<le> 2 * int (N ctx) \<and>
               ((k_rem c = k_rem st \<and>
                 popcount (deleted st) + popcount (forced st)
                   < popcount (deleted c) + popcount (forced c)) \<or>
                k_rem c < k_rem st)))"
proof -
  obtain h ctx coords where s: "solved k grid h ctx coords" using valid_solved [OF assms] by blast
  note d = solvedD [OF s]
  have 1: "\<exists>res. solve k grid = Some (Inr res)" using solve_result [OF s] by blast
  have 2: "\<exists>g. search k ctx = Some g" using search_total [OF d(3) d(9) d(10)] by blast
  have 3: "0 \<le> k_rem c \<and>
           popcount (deleted c) + popcount (forced c) \<le> 2 * int (N ctx) \<and>
           ((k_rem c = k_rem st \<and>
             popcount (deleted st) + popcount (forced st)
               < popcount (deleted c) + popcount (forced c)) \<or>
            k_rem c < k_rem st)"
    if "reach_st ctx k st \<and> dfs_children ctx st = Some cs \<and> c \<in> set cs" for st cs c
  proof -
    have o: "st_ok ctx k (deleted st) (forced st) (k_rem st)"
      using reach_st_ok [OF d(3) d(9) d(10)] that by blast
    have ch: "st_ok ctx k (deleted c) (forced c) (k_rem c)" "0 \<le> k_rem c"
      "(k_rem c = k_rem st \<and> deleted c = deleted st \<and>
           card (bits (forced c)) = card (bits (forced st)) + 1) \<or>
          (k_rem c = k_rem st - 1 \<and> forced c = forced st \<and>
           card (bits (deleted c)) = card (bits (deleted st)) + 1)"
      using children_ok [OF d(3) d(10) o] that by blast+
    have l: "length (deleted c) = N ctx" "length (forced c) = N ctx"
      using ch(1) by (simp_all add: st_ok_def)
    have "card (bits (deleted c)) \<le> N ctx" "card (bits (forced c)) \<le> N ctx"
      using card_bits_le [of "deleted c"] card_bits_le [of "forced c"] l by simp_all
    then have b: "popcount (deleted c) + popcount (forced c) \<le> 2 * int (N ctx)"
      by (simp add: popcount_card)
    show ?thesis using ch(2,3) b by (auto simp: popcount_card)
  qed
  show ?thesis using 1 2 3 d(1,2) by blast
qed

theorem search_terminates_witness:
  "valid_grid [''#.#'', ''.H.'', ''#.#''] \<and>
   (\<exists>res. solve 4 [''#.#'', ''.H.'', ''#.#''] = Some (Inr res)) \<and>
   (\<exists>h ctx coords.
      find_horse [''#.#'', ''.H.'', ''#.#''] (width [''#.#'', ''.H.'', ''#.#'']) (rows_of [''#.#'', ''.H.'', ''#.#'']) = Some h \<and>
      build 4 [''#.#'', ''.H.'', ''#.#''] (height [''#.#'', ''.H.'', ''#.#'']) (width [''#.#'', ''.H.'', ''#.#'']) h = Some (ctx, coords) \<and>
      (\<exists>g. search 4 ctx = Some g) \<and>
      (\<forall>st cs c. reach_st ctx 4 st \<and> dfs_children ctx st = Some cs \<and> c \<in> set cs \<longrightarrow>
         0 \<le> k_rem c \<and>
         popcount (deleted c) + popcount (forced c) \<le> 2 * int (N ctx) \<and>
         ((k_rem c = k_rem st \<and>
           popcount (deleted st) + popcount (forced st)
             < popcount (deleted c) + popcount (forced c)) \<or>
          k_rem c < k_rem st)))"
proof -
  have v: "valid_grid [''#.#'', ''.H.'', ''#.#'']" by (simp add: valid_grid_def)
  show ?thesis using v search_terminates [OF v, of 4] by simp
qed

lemma boundary_horse:
  assumes s: "solved k grid h ctx coords"
  shows "test (boundary ctx) horse_idx \<longleftrightarrow> on_boundary (height grid) (width grid) h"
proof -
  note d = solvedD [OF s]
  have l: "length (boundary ctx) = N ctx" using ctx_okD(4) [OF d(3)] .
  have h0: "horse_idx < N ctx" "horse_idx = 0" using d(9) by (simp_all add: horse_idx_def)
  have "bits (boundary ctx) = {i. i < length coords \<and> on_boundary (height grid) (width grid) (coords ! i)}"
    using d(8) by (simp add: graph_ok_def)
  then have "horse_idx \<in> bits (boundary ctx) \<longleftrightarrow> on_boundary (height grid) (width grid) h"
    using h0 d(4,5) by simp
  then show ?thesis using test_bits [of horse_idx "boundary ctx"] l h0(1) by simp
qed

lemma negative_budget:
  assumes s: "solved k grid h ctx coords" and k: "k < 0"
  shows "solve k grid = Some (Inr \<lparr>best_area = 0, walls = []\<rparr>)"
proof (cases "test (boundary ctx) horse_idx")
  case True
  then show ?thesis using solve_result [OF s] by simp
next
  case False
  then obtain g where g: "search k ctx = Some g" "g_ok ctx k g"
    "solve k grid = Some (Inr \<lparr>best_area = cur_area g,
        walls = sort (map (\<lambda>i. coords ! i) (set_bits (cur_walls g)))\<rparr>)"
    using solve_result [OF s] by blast
  have "\<not> int (card (bits (cur_walls g))) \<le> k" using k by simp
  then have e: "cur_area g = 0" "bits (cur_walls g) = {}" using g_okD(3) [OF g(2)] by auto
  have "set (set_bits (cur_walls g)) = {}" using e(2) by simp
  then have "set_bits (cur_walls g) = []" by (simp only: set_empty)
  then show ?thesis using g(3) e(1) by simp
qed

lemma valid_single_horse: "valid_grid [''H'']"
  by (simp add: valid_grid_def)

lemma single_horse:
  "solve k [''H''] = Some (Inr \<lparr>best_area = 0, walls = []\<rparr>)"
proof -
  obtain h ctx coords where s: "solved k [''H''] h ctx coords"
    using valid_solved [OF valid_single_horse] by blast
  have "in_grid (height [''H'']) (width [''H'']) h"
    using find_horse_in_grid(1) [OF solvedD(1) [OF s]] .
  then have "fst h = 0" by (simp add: in_grid_def height_def)
  then have "on_boundary (height [''H'']) (width [''H'']) h" by (simp add: on_boundary_def)
  then have "test (boundary ctx) horse_idx" using boundary_horse [OF s] by simp
  then show ?thesis using solve_result [OF s] by simp
qed

lemma empty_grid: "solve k [] = Some (Inl OutOfRange)"
  by (simp add: solve_def)

text \<open>Claim C5, as stated, fails on the empty grid: the first thing \<open>solve\<close> does there is
  the read of \<open>grid[0]\<close>, which is out of range on a grid with no rows. The source has no
  defined result at that point (the embedding reports it as \<open>OutOfRange\<close>), so \<open>solve\<close>
  does not return \<open>(0, [])\<close> there.\<close>

theorem empty_grid_counterexample:
  "solve 0 [] = Some (Inl OutOfRange) \<and> solve 0 [] \<noteq> Some (Inr \<lparr>best_area = 0, walls = []\<rparr>)"
  by (simp add: empty_grid)

text \<open>Claim C5, amended: \<open>solve\<close> returns \<open>(0, [])\<close> for a negative budget on every valid
  grid and, for every budget, on the grid that holds only the horse. The empty grid is outside
  the domain of \<open>solve\<close>: it ends in the out-of-range read of \<open>grid[0]\<close>, for every budget.\<close>

theorem trivial_inputs:
  "(valid_grid grid \<and> k < 0 \<longrightarrow> solve k grid = Some (Inr \<lparr>best_area = 0, walls = []\<rparr>)) \<and>
   solve k [''H''] = Some (Inr \<lparr>best_area = 0, walls = []\<rparr>) \<and>
   solve k [] = Some (Inl OutOfRange)"
proof -
  have "solve k grid = Some (Inr \<lparr>best_area = 0, walls = []\<rparr>)"
    if v: "valid_grid grid" and kn: "k < 0"
  proof -
    obtain h ctx coords where s: "solved k grid h ctx coords" using valid_solved [OF v] by blast
    show ?thesis using s kn by (rule negative_budget)
  qed
  then show ?thesis using single_horse empty_grid by blast
qed

theorem trivial_inputs_witness:
  "valid_grid [''...'', ''.H.'', ''...''] \<and> (-1 :: int) < 0 \<and>
   solve (-1) [''...'', ''.H.'', ''...''] = Some (Inr \<lparr>best_area = 0, walls = []\<rparr>) \<and>
   solve (-1) [''H''] = Some (Inr \<lparr>best_area = 0, walls = []\<rparr>) \<and>
   solve (-1) [] = Some (Inl OutOfRange)"
proof -
  have v: "valid_grid [''...'', ''.H.'', ''...'']" by (simp add: valid_grid_def)
  show ?thesis using v trivial_inputs [of "[''...'', ''.H.'', ''...'']" "-1"] by simp
qed

text \<open>Claim C6, as stated, fails: \<open>solve\<close> has no check of the row lengths. On a grid whose
  second row is longer than the first it returns a normal result.\<close>

theorem ragged_grid_counterexample:
  "solve 0 [''###'', ''#H#..'', ''###''] = Some (Inr \<lparr>best_area = 1, walls = []\<rparr>) \<and>
   length (''#H#..'' :: string) \<noteq> length (''###'' :: string)"
  by code_simp

text \<open>Claim C6, amended: \<open>solve\<close> does not detect rows of unequal length. It takes the
  width \<open>C\<close> from the first row and reads the first \<open>C\<close> columns of every row; for every
  non-empty grid with no row shorter than the first, it raises \<open>HorseMissing\<close> when no
  \<open>H\<close> lies in those columns and returns a normal result otherwise.\<close>

theorem no_shape_check:
  assumes "grid \<noteq> []" "list_all (\<lambda>row. length (hd grid) \<le> length row) grid"
    "length (hd grid) < 2 ^ 31"
  shows "(find_horse grid (width grid) (rows_of grid) = None \<longrightarrow>
            solve k grid = Some (Inl HorseMissing)) \<and>
         (find_horse grid (width grid) (rows_of grid) \<noteq> None \<longrightarrow>
            (\<exists>res. solve k grid = Some (Inr res)))"
proof -
  have w: "width grid = int (length (hd grid))" using assms(1) by (simp add: width_def hd_conv_nth)
  have "int (length (hd grid)) < 2 ^ 31" using assms(3)
    by (metis of_nat_less_numeral_power_cancel_iff)
  then have wb: "width grid \<le> 2 ^ 31" using w by simp
  have 1: "solve k grid = Some (Inl HorseMissing)"
    if "find_horse grid (width grid) (rows_of grid) = None"
    using that by (simp add: solve_unfold [OF assms(1)])
  have 2: "\<exists>res. solve k grid = Some (Inr res)"
    if "find_horse grid (width grid) (rows_of grid) \<noteq> None"
  proof -
    from that obtain h where "find_horse grid (width grid) (rows_of grid) = Some h"
      unfolding not_None_eq ..
    then obtain ctx coords where s: "solved k grid h ctx coords" using solved_exists wb by blast
    show ?thesis using solve_result [OF s] by blast
  qed
  show ?thesis using 1 2 by blast
qed

theorem no_shape_check_witness:
  "[''###'', ''#H#..'', ''###''] \<noteq> [] \<and>
   list_all (\<lambda>row. length (hd [''###'', ''#H#..'', ''###'']) \<le> length row)
     [''###'', ''#H#..'', ''###''] \<and>
   length (hd [''###'', ''#H#..'', ''###'']) < 2 ^ 31 \<and>
   find_horse [''###'', ''#H#..'', ''###''] (width [''###'', ''#H#..'', ''###''])
        (rows_of [''###'', ''#H#..'', ''###'']) = Some (1, 1) \<and>
   (\<exists>res. solve 0 [''###'', ''#H#..'', ''###''] = Some (Inr res)) \<and>
   find_horse [''###'', ''#.#''] (width [''###'', ''#.#'']) (rows_of [''###'', ''#.#'']) = None \<and>
   solve 0 [''###'', ''#.#''] = Some (Inl HorseMissing)"
proof -
  have a: "[''###'', ''#H#..'', ''###''] \<noteq> []" by simp
  have b: "list_all (\<lambda>row. length (hd [''###'', ''#H#..'', ''###'']) \<le> length row)
     [''###'', ''#H#..'', ''###'']" by simp
  have c: "length (hd [''###'', ''#H#..'', ''###'']) < 2 ^ 31" by simp
  have f: "find_horse [''###'', ''#H#..'', ''###''] (width [''###'', ''#H#..'', ''###''])
        (rows_of [''###'', ''#H#..'', ''###'']) = Some (1, 1)" by code_simp
  have a': "[''###'', ''#.#''] \<noteq> []" by simp
  have b': "list_all (\<lambda>row. length (hd [''###'', ''#.#'']) \<le> length row) [''###'', ''#.#'']"
    by simp
  have c': "length (hd [''###'', ''#.#'']) < 2 ^ 31" by simp
  have f': "find_horse [''###'', ''#.#''] (width [''###'', ''#.#'']) (rows_of [''###'', ''#.#'']) = None"
    by code_simp
  show ?thesis
    using a b c f f' no_shape_check [OF a b c, of 0] no_shape_check [OF a' b' c', of 0] by simp
qed

lemma rect_dims: "rect g r c \<Longrightarrow> height g = int r \<and> width g = int c"
  by (simp add: rect_def height_def width_def)

lemma valid_rect:
  assumes "valid_grid grid"
  shows "rect grid (length grid) (length (hd grid))"
proof -
  have a: "list_all (\<lambda>row. length row = length (hd grid)) grid" and ne: "grid \<noteq> []"
    using assms by (simp_all add: valid_grid_def)
  have "length (grid ! i) = length (hd grid)" if "i < length grid" for i
  proof -
    have "grid ! i \<in> set grid" using that by (rule nth_mem)
    then show ?thesis using a unfolding list_all_iff by blast
  qed
  moreover have "0 < length grid" using ne by simp
  ultimately show ?thesis unfolding rect_def by blast
qed

lemma put_wall_rect:
  assumes "rect g r c"
  shows "rect (put_wall g w) r c"
proof -
  have "length (put_wall g w ! i) = c" if "i < r" for i
    using assms that by (cases "i = nat (fst w)") (simp_all add: put_wall_def rect_def)
  then show ?thesis using assms by (simp add: rect_def put_wall_def)
qed

lemma put_wall_cell:
  assumes "rect g r c" "in_grid (int r) (int c) w" "in_grid (int r) (int c) q"
  shows "cell_at (put_wall g w) (fst q) (snd q) = (if q = w then CHR ''X'' else cell_at g (fst q) (snd q))"
proof -
  have w: "nat (fst w) < length g" "nat (snd w) < length (g ! nat (fst w))"
    using assms(1,2) by (auto simp: rect_def in_grid_def)
  have eq: "q = w \<longleftrightarrow> nat (fst q) = nat (fst w) \<and> nat (snd q) = nat (snd w)"
    using assms(2,3) by (auto simp: in_grid_def prod_eq_iff)
  show ?thesis
  proof (cases "nat (fst q) = nat (fst w)")
    case True
    then show ?thesis using w eq by (simp add: cell_at_def put_wall_def nth_list_update)
  next
    case False
    then show ?thesis using eq by (simp add: cell_at_def put_wall_def)
  qed
qed

lemma overlay_spec:
  assumes "rect g r c" "\<forall>w \<in> set ws. in_grid (int r) (int c) w"
  shows "rect (overlay g ws) r c \<and>
         (\<forall>q. in_grid (int r) (int c) q \<longrightarrow>
            cell_at (overlay g ws) (fst q) (snd q) =
              (if q \<in> set ws then CHR ''X'' else cell_at g (fst q) (snd q)))"
  using assms
proof (induction ws arbitrary: g)
  case Nil
  then show ?case by (simp add: overlay_def)
next
  case (Cons w ws)
  have w: "in_grid (int r) (int c) w" and ws: "\<forall>x \<in> set ws. in_grid (int r) (int c) x"
    using Cons.prems(2) by simp_all
  have r1: "rect (put_wall g w) r c" using put_wall_rect [OF Cons.prems(1)] .
  have IH: "rect (overlay (put_wall g w) ws) r c"
    "\<forall>q. in_grid (int r) (int c) q \<longrightarrow>
       cell_at (overlay (put_wall g w) ws) (fst q) (snd q) =
         (if q \<in> set ws then CHR ''X'' else cell_at (put_wall g w) (fst q) (snd q))"
    using Cons.IH [OF r1 ws] by simp_all
  have e: "overlay g (w # ws) = overlay (put_wall g w) ws" by (simp add: overlay_def)
  have "cell_at (overlay (put_wall g w) ws) (fst q) (snd q) =
      (if q \<in> set (w # ws) then CHR ''X'' else cell_at g (fst q) (snd q))"
    if q: "in_grid (int r) (int c) q" for q
    using IH(2) q put_wall_cell [OF Cons.prems(1) w q] by auto
  then show ?case unfolding e using IH(1) by simp
qed

lemma find_cong_set: "(\<forall>x \<in> set xs. P x = Q x) \<Longrightarrow> find P xs = find Q xs"
  by (induction xs) simp_all

lemma find_horse_cong:
  assumes "\<forall>r \<in> set rs. \<forall>c. 0 \<le> c \<and> c < C \<longrightarrow>
             (cell_at g r c = CHR ''H'') = (cell_at g' r c = CHR ''H'')"
  shows "find_horse g C rs = find_horse g' C rs"
  using assms
proof (induction rs)
  case Nil
  then show ?case by simp
next
  case (Cons r rs)
  have "find_in_row g C r = find_in_row g' C r"
    unfolding find_in_row_def using Cons.prems by (intro find_cong_set) auto
  moreover have "find_horse g C rs = find_horse g' C rs" using Cons.IH Cons.prems by simp
  ultimately show ?case by (simp split: option.splits)
qed

lemma valid_cell:
  assumes v: "valid_grid grid" and q: "in_grid (height grid) (width grid) q"
  shows "cell_at grid (fst q) (snd q) = CHR ''.'' \<or> cell_at grid (fst q) (snd q) = CHR ''#''
           \<or> cell_at grid (fst q) (snd q) = CHR ''H''"
proof -
  have r: "rect grid (length grid) (length (hd grid))" using valid_rect [OF v] .
  have d: "height grid = int (length grid)" "width grid = int (length (hd grid))"
    using rect_dims [OF r] by simp_all
  have i: "nat (fst q) < length grid" using q d by (auto simp: in_grid_def nat_less_iff)
  then have row: "grid ! nat (fst q) \<in> set grid" by simp
  have "length (grid ! nat (fst q)) = length (hd grid)" using r i by (simp add: rect_def)
  then have "nat (snd q) < length (grid ! nat (fst q))"
    using q d by (auto simp: in_grid_def nat_less_iff)
  then have "grid ! nat (fst q) ! nat (snd q) \<in> set (grid ! nat (fst q))" by simp
  moreover have "list_all (list_all (\<lambda>ch. ch = CHR ''.'' \<or> ch = CHR ''#'' \<or> ch = CHR ''H'')) grid"
    using v by (simp add: valid_grid_def)
  ultimately show ?thesis using row unfolding cell_at_def list_all_iff by blast
qed

lemma enclosed:
  assumes v: "valid_grid grid" and s: "solved k grid h ctx coords"
    and g: "g_ok ctx k g" and a: "0 < cur_area g"
    and G: "G = overlay grid (sort (map (\<lambda>i. coords ! i) (set_bits (cur_walls g))))"
  shows "find_horse G (width G) (rows_of G) = Some h \<and>
         (\<forall>p. flood (height G) (width G) (passable G) h p \<longrightarrow>
              \<not> on_boundary (height G) (width G) p)"
proof -
  note d = solvedD [OF s]
  note c = ctx_okD [OF d(3)]
  let ?cw = "cur_walls g"
  let ?ws = "sort (map (\<lambda>i. coords ! i) (set_bits ?cw))"
  let ?R = "height grid" and ?C = "width grid"
  obtain idx_of where inv: "idx_inv grid ?R ?C idx_of coords" using d(6) by blast
  have dist: "distinct coords" using inv by (rule idx_inv_distinct)
  have lcw: "length ?cw = N ctx" and wcw: "bits ?cw \<subseteq> {i. i < N ctx \<and> wallable ctx ! i}"
    using g_okD(1,2) [OF g] by simp_all
  obtain vis where b: "bfs_reachable ctx ?cw = Some (vis, cur_area g, False)"
    using g_okD(3) [OF g] a by auto
  obtain vis' area' esc' where b': "bfs_reachable ctx ?cw = Some (vis', area', esc')"
    "length vis' = N ctx" "test ?cw horse_idx \<longrightarrow> esc'"
    "\<not> test ?cw horse_idx \<longrightarrow>
       horse_idx \<in> bits vis' \<and> (\<forall>u \<in> bits vis'. closed_under (gadj ctx) ?cw vis' u) \<and>
       area' = int (card (bits vis')) \<and> (esc' \<longleftrightarrow> bits vis' \<inter> bits (boundary ctx) \<noteq> {})"
    using bfs_reachable_spec [OF d(3) lcw d(9)] by blast
  have e: "vis' = vis" "esc' = False" using b b'(1) by simp_all
  have nt: "\<not> test ?cw horse_idx" using b'(3) e(2) by auto
  have vh: "horse_idx \<in> bits vis" and vc: "\<forall>u \<in> bits vis. closed_under (gadj ctx) ?cw vis u"
    and ve: "bits vis \<inter> bits (boundary ctx) = {}"
    using b'(4) nt e by auto
  have lv: "length vis = N ctx" using b'(2) e(1) by simp
  \<comment> \<open>the walls\<close>
  have W: "set ?ws = (\<lambda>i. coords ! i) ` bits ?cw" by (rule walls_set)
  have wg: "in_grid ?R ?C w" "cell_at grid (fst w) (snd w) = CHR ''.''" if "w \<in> set ?ws" for w
  proof -
    have "w \<in> (\<lambda>i. coords ! i) ` bits ?cw" using that unfolding W .
    then obtain i where i: "i \<in> bits ?cw" "w = coords ! i" by (rule imageE)
    then have i': "i < length coords" "wallable ctx ! i" using wcw d(4) by auto
    show "in_grid ?R ?C w" using idx_inv_in_grid [OF inv] i'(1) i(2) by simp
    show "cell_at grid (fst w) (snd w) = CHR ''.''"
      using d(8) i' i(2) unfolding graph_ok_def by blast
  qed
  \<comment> \<open>the rendered grid\<close>
  have r: "rect grid (length grid) (length (hd grid))" using valid_rect [OF v] .
  have dm: "?R = int (length grid)" "?C = int (length (hd grid))" using rect_dims [OF r] by simp_all
  have ov: "rect G (length grid) (length (hd grid))"
    "\<forall>q. in_grid ?R ?C q \<longrightarrow>
        cell_at G (fst q) (snd q) = (if q \<in> set ?ws then CHR ''X'' else cell_at grid (fst q) (snd q))"
    using overlay_spec [OF r, of ?ws] wg(1) unfolding G dm by blast+
  have dG: "height G = ?R" "width G = ?C" using rect_dims [OF ov(1)] dm by simp_all
  have rG: "rows_of G = rows_of grid" using ov(1) by (simp add: rows_of_def rect_def)
  have hh: "(cell_at grid r c = CHR ''H'') = (cell_at G r c = CHR ''H'')"
    if "r \<in> set (rows_of grid)" "0 \<le> c \<and> c < ?C" for r c
  proof -
    have q: "in_grid ?R ?C (r, c)" using that by (auto simp: in_grid_def rows_of_def height_def)
    show ?thesis
    proof (cases "(r, c) \<in> set ?ws")
      case True
      then have "cell_at grid r c = CHR ''.''" using wg(2) [of "(r, c)"] by simp
      moreover have "cell_at G r c = CHR ''X''" using ov(2) q True by auto
      ultimately show ?thesis by simp
    next
      case False
      then show ?thesis using ov(2) q by auto
    qed
  qed
  have fh: "find_horse G (width G) (rows_of G) = Some h"
    unfolding dG rG using find_horse_cong [of "rows_of grid" ?C grid G] hh d(1) by simp
  \<comment> \<open>every cell the flood reaches was visited by the search\<close>
  have fl: "\<exists>i \<in> bits vis. coords ! i = p" if "flood ?R ?C (passable G) h p" for p
    using that
  proof (induction rule: flood.induct)
    case start
    show ?case using vh d(5) by (auto simp: horse_idx_def)
  next
    case (step p q)
    then obtain i where i: "i \<in> bits vis" "coords ! i = p" by blast
    have il: "i < length coords" using i(1) lv d(4) bits_less by fastforce
    have nw: "q \<notin> set ?ws" using step.hyps(4) ov(2) step.hyps(3) by (auto simp: passable_def)
    then have "cell_at grid (fst q) (snd q) \<noteq> CHR ''#''"
      using step.hyps(4) ov(2) step.hyps(3) by (auto simp: passable_def)
    then have op: "open_at grid q"
      using valid_cell [OF v step.hyps(3)] by (auto simp: open_at_def is_open_cell_def)
    have "closed_at grid ?R ?C coords p" using d(7) i(2) il by (metis nth_mem)
    then have "q \<in> set coords" using step.hyps(2,3) op unfolding closed_at_def by blast
    then obtain j where j: "j < length coords" "coords ! j = q" by (auto simp: in_set_conv_nth)
    have "set (gadj ctx ! i) = {j. j < length coords \<and> adj4 (coords ! i) (coords ! j)}"
      using d(8) il unfolding graph_ok_def by blast
    then have ja: "j \<in> set (gadj ctx ! i)" using j i(2) step.hyps(2) by simp
    have "j \<notin> bits ?cw"
    proof
      assume "j \<in> bits ?cw"
      then have "coords ! j \<in> (\<lambda>i. coords ! i) ` bits ?cw" by (rule imageI)
      then show False using nw j(2) unfolding W by simp
    qed
    then have "\<not> test ?cw j" using j(1) lcw d(4) by (simp add: test_bits)
    then have "j \<in> bits vis" using vc i(1) ja unfolding closed_under_def by blast
    then show ?case using j(2) by blast
  qed
  have "\<not> on_boundary ?R ?C p" if fp: "flood ?R ?C (passable G) h p" for p
  proof
    assume ob: "on_boundary ?R ?C p"
    obtain i where i: "i \<in> bits vis" "coords ! i = p" using fl [OF fp] by blast
    have il: "i < length coords" using i(1) lv d(4) bits_less by fastforce
    have "bits (boundary ctx) = {i. i < length coords \<and> on_boundary ?R ?C (coords ! i)}"
      using d(8) unfolding graph_ok_def by blast
    then have "i \<in> bits (boundary ctx)" using il ob i(2) by simp
    then show False using ve i(1) by blast
  qed
  then show ?thesis using fh unfolding dG by blast
qed

text \<open>Claim C2, as stated, fails on this grid with the budget 0: the horse has an open cell
  above it on the top row, \<open>solve\<close> returns the area 0 and no walls, and the flood fill over
  the unchanged grid reaches the boundary cell \<open>(0, 1)\<close>.\<close>

theorem enclosure_counterexample:
  "solve 0 [''#.#'', ''#H#'', ''###''] = Some (Inr \<lparr>best_area = 0, walls = []\<rparr>) \<and>
   find_horse (overlay [''#.#'', ''#H#'', ''###''] []) 3 [0, 1, 2] = Some (1, 1) \<and>
   flood 3 3 (passable (overlay [''#.#'', ''#H#'', ''###''] [])) (1, 1) (0, 1) \<and>
   on_boundary 3 3 (0, 1)"
proof -
  let ?g = "[''#.#'', ''#H#'', ''###'']"
  have 1: "solve 0 ?g = Some (Inr \<lparr>best_area = 0, walls = []\<rparr>)" by code_simp
  have 2: "find_horse (overlay ?g []) 3 [0, 1, 2] = Some (1, 1)" by code_simp
  have "(0, 1) = nb (1, 1) 1" by (simp add: nb_def drs_def dcs_def)
  then have "adj4 (1, 1) (0, 1)" using adj4I [of 1 "(1, 1)"] by simp
  moreover have "in_grid 3 3 (0, 1)" by (simp add: in_grid_def)
  moreover have "passable (overlay ?g []) (0, 1)" by (simp add: passable_def overlay_def cell_at_def)
  ultimately have 3: "flood 3 3 (passable (overlay ?g [])) (1, 1) (0, 1)"
    using flood.step [OF flood.start] by blast
  have 4: "on_boundary 3 3 (0, 1)" by (simp add: on_boundary_def)
  show ?thesis using 1 2 3 4 by blast
qed

text \<open>Claim C2, amended: \<open>solve\<close> returns a result with \<open>best_area \<ge> 0\<close>. Whenever it
  reports a positive area, overlaying the returned walls onto the grid as \<open>X\<close> and flooding
  from \<open>H\<close> over 4-neighbours, with \<open>X\<close> and \<open>#\<close> blocked, reaches no cell of the outermost
  row or column. Whenever it reports the area 0, it returns no walls.\<close>

theorem enclosure_when_found:
  assumes "valid_grid grid"
  shows "\<exists>res. solve k grid = Some (Inr res) \<and> 0 \<le> best_area res \<and>
           (best_area res = 0 \<longrightarrow> walls res = []) \<and>
           (0 < best_area res \<longrightarrow>
              (\<exists>h. find_horse (overlay grid (walls res)) (width (overlay grid (walls res)))
                      (rows_of (overlay grid (walls res))) = Some h \<and>
                    (\<forall>p. flood (height (overlay grid (walls res))) (width (overlay grid (walls res)))
                            (passable (overlay grid (walls res))) h p \<longrightarrow>
                         \<not> on_boundary (height (overlay grid (walls res)))
                             (width (overlay grid (walls res))) p)))"
proof -
  obtain h ctx coords where s: "solved k grid h ctx coords" using valid_solved [OF assms] by blast
  show ?thesis
  proof (cases "test (boundary ctx) horse_idx")
    case True
    then have "solve k grid = Some (Inr \<lparr>best_area = 0, walls = []\<rparr>)"
      using solve_result [OF s] by simp
    then show ?thesis by simp
  next
    case False
    then obtain g where g: "search k ctx = Some g" "g_ok ctx k g"
      "solve k grid = Some (Inr \<lparr>best_area = cur_area g,
          walls = sort (map (\<lambda>i. coords ! i) (set_bits (cur_walls g)))\<rparr>)"
      using solve_result [OF s] by blast
    let ?res = "\<lparr>best_area = cur_area g,
          walls = sort (map (\<lambda>i. coords ! i) (set_bits (cur_walls g)))\<rparr>"
    have nn: "0 \<le> best_area ?res" using g_okD(3) [OF g(2)] by auto
    have z: "walls ?res = []" if "best_area ?res = 0"
    proof -
      have "bits (cur_walls g) = {}" using g_okD(3) [OF g(2)] that by auto
      then have "set (set_bits (cur_walls g)) = {}" by simp
      then have "set_bits (cur_walls g) = []" by (simp only: set_empty)
      then show ?thesis by simp
    qed
    have "\<exists>h. find_horse (overlay grid (walls ?res)) (width (overlay grid (walls ?res)))
                      (rows_of (overlay grid (walls ?res))) = Some h \<and>
                    (\<forall>p. flood (height (overlay grid (walls ?res))) (width (overlay grid (walls ?res)))
                            (passable (overlay grid (walls ?res))) h p \<longrightarrow>
                         \<not> on_boundary (height (overlay grid (walls ?res)))
                             (width (overlay grid (walls ?res))) p)"
      if "0 < best_area ?res"
    proof -
      have a: "0 < cur_area g" using that by simp
      have G: "overlay grid (walls ?res)
          = overlay grid (sort (map (\<lambda>i. coords ! i) (set_bits (cur_walls g))))" by simp
      show ?thesis using enclosed [OF assms s g(2) a G] by blast
    qed
    then show ?thesis using g(3) nn z by blast
  qed
qed

theorem enclosure_when_found_witness:
  "valid_grid [''#.#'', ''.H.'', ''#.#''] \<and>
   (\<exists>res. solve 4 [''#.#'', ''.H.'', ''#.#''] = Some (Inr res) \<and> 0 \<le> best_area res \<and>
      (best_area res = 0 \<longrightarrow> walls res = []) \<and>
      (0 < best_area res \<longrightarrow>
         (\<exists>h. find_horse (overlay [''#.#'', ''.H.'', ''#.#''] (walls res))
                 (width (overlay [''#.#'', ''.H.'', ''#.#''] (walls res)))
                 (rows_of (overlay [''#.#'', ''.H.'', ''#.#''] (walls res))) = Some h \<and>
               (\<forall>p. flood (height (overlay [''#.#'', ''.H.'', ''#.#''] (walls res)))
                       (width (overlay [''#.#'', ''.H.'', ''#.#''] (walls res)))
                       (passable (overlay [''#.#'', ''.H.'', ''#.#''] (walls res))) h p \<longrightarrow>
                    \<not> on_boundary (height (overlay [''#.#'', ''.H.'', ''#.#''] (walls res)))
                        (width (overlay [''#.#'', ''.H.'', ''#.#''] (walls res))) p))))"
proof -
  have v: "valid_grid [''#.#'', ''.H.'', ''#.#'']" by (simp add: valid_grid_def)
  show ?thesis using v enclosure_when_found [OF v, of 4] by simp
qed

lemma coords_flood:
  assumes s: "solved k grid h ctx coords"
  shows "set coords = {p. flood (height grid) (width grid) (open_at grid) h p}"
proof -
  note d = solvedD [OF s]
  let ?R = "height grid" and ?C = "width grid"
  obtain idx_of where inv: "idx_inv grid ?R ?C idx_of coords" using d(6) by blast
  note i' = inv [unfolded idx_inv_def]
  have ne: "coords \<noteq> []" using i' by simp
  have 1: "flood ?R ?C (open_at grid) h (coords ! i)" if "i < length coords" for i
    using that
  proof (induction i rule: less_induct)
    case (less i)
    show ?case
    proof (cases "i = 0")
      case True
      then show ?thesis using d(5) flood.start by simp
    next
      case False
      then have i0: "0 < i \<and> i < length coords" using less.prems by simp
      have "\<exists>j < i. adj4 (coords ! j) (coords ! i)" using i' i0 by blast
      then obtain j where j: "j < i" "adj4 (coords ! j) (coords ! i)" by blast
      have fj: "flood ?R ?C (open_at grid) h (coords ! j)" using less.IH [OF j(1)] j(1) less.prems by simp
      have ig: "in_grid ?R ?C (coords ! i)" using idx_inv_in_grid [OF inv] less.prems by simp
      have op: "open_at grid (coords ! i)" using i' i0 by blast
      show ?thesis using flood.step [OF fj j(2) ig op] .
    qed
  qed
  have 2: "p \<in> set coords" if "flood ?R ?C (open_at grid) h p" for p
    using that
  proof (induction rule: flood.induct)
    case start
    have "coords ! 0 \<in> set coords" using ne by simp
    then show ?case using d(5) by simp
  next
    case (step p q)
    have "closed_at grid ?R ?C coords p" using d(7) step.IH by blast
    then show ?case using step.hyps(2,3,4) unfolding closed_at_def by blast
  qed
  show ?thesis
  proof (intro set_eqI iffI)
    fix p assume "p \<in> set coords"
    then obtain i where "i < length coords" "coords ! i = p" by (auto simp: in_set_conv_nth)
    then show "p \<in> {p. flood ?R ?C (open_at grid) h p}" using 1 by auto
  next
    fix p assume "p \<in> {p. flood ?R ?C (open_at grid) h p}"
    then show "p \<in> set coords" using 2 by simp
  qed
qed

lemma test_init: "i < m \<Longrightarrow> \<not> test (init m) i"
  by (simp add: test_def init_def)

lemma all_visited:
  assumes s: "solved k grid h ctx coords"
  shows "\<exists>vis. bfs_reachable ctx (init (N ctx))
           = Some (vis, int (N ctx), bits vis \<inter> bits (boundary ctx) \<noteq> {}) \<and>
           length vis = N ctx \<and> horse_idx \<in> bits vis"
proof -
  note d = solvedD [OF s]
  let ?R = "height grid" and ?C = "width grid"
  let ?b = "init (N ctx)"
  obtain idx_of where inv: "idx_inv grid ?R ?C idx_of coords" using d(6) by blast
  note i' = inv [unfolded idx_inv_def]
  have h0: "horse_idx < N ctx" "horse_idx = 0" using d(9) by (simp_all add: horse_idx_def)
  have nt: "\<not> test ?b horse_idx" using test_init [OF h0(1)] .
  obtain vis area esc where b: "bfs_reachable ctx ?b = Some (vis, area, esc)" "length vis = N ctx"
    "\<not> test ?b horse_idx \<longrightarrow>
       horse_idx \<in> bits vis \<and> (\<forall>u \<in> bits vis. closed_under (gadj ctx) ?b vis u) \<and>
       area = int (card (bits vis)) \<and> (esc \<longleftrightarrow> bits vis \<inter> bits (boundary ctx) \<noteq> {})"
    using bfs_reachable_spec [OF d(3) _ d(9), of ?b] by auto
  have vh: "horse_idx \<in> bits vis" and vc: "\<forall>u \<in> bits vis. closed_under (gadj ctx) ?b vis u"
    and va: "area = int (card (bits vis))" and ve: "esc \<longleftrightarrow> bits vis \<inter> bits (boundary ctx) \<noteq> {}"
    using b(3) nt by blast+
  have all: "i \<in> bits vis" if "i < N ctx" for i
    using that
  proof (induction i rule: less_induct)
    case (less i)
    show ?case
    proof (cases "i = 0")
      case True
      then show ?thesis using vh h0(2) by simp
    next
      case False
      then have i0: "0 < i \<and> i < length coords" using less.prems d(4) by simp
      have "\<exists>j < i. adj4 (coords ! j) (coords ! i)" using i' i0 by blast
      then obtain j where j: "j < i" "adj4 (coords ! j) (coords ! i)" by blast
      have jl: "j < length coords" using j(1) i0 by simp
      have jv: "j \<in> bits vis" using less.IH [OF j(1)] jl d(4) by simp
      have "set (gadj ctx ! j) = {x. x < length coords \<and> adj4 (coords ! j) (coords ! x)}"
        using d(8) jl unfolding graph_ok_def by blast
      then have ia: "i \<in> set (gadj ctx ! j)" using i0 j(2) by simp
      have "\<not> test ?b i" using test_init less.prems by simp
      then show ?thesis using vc jv ia unfolding closed_under_def by blast
    qed
  qed
  have "bits vis = {..<N ctx}"
  proof (intro set_eqI iffI)
    fix i assume "i \<in> bits vis"
    then show "i \<in> {..<N ctx}" using bits_less b(2) by fastforce
  next
    fix i assume "i \<in> {..<N ctx}"
    then show "i \<in> bits vis" using all by simp
  qed
  then have "area = int (N ctx)" using va by simp
  then show ?thesis using b(1,2) ve vh by simp
qed

lemma search_enclosed:
  assumes s: "solved k grid h ctx coords" and bd: "bits (boundary ctx) = {}" and k: "0 \<le> k"
  shows "\<exists>g. search k ctx = Some g \<and> cur_area g = int (N ctx) \<and> cur_walls g = init (N ctx)"
proof -
  note d = solvedD [OF s]
  let ?n = "N ctx"
  let ?frc = "bset (init ?n) horse_idx"
  let ?g0 = "\<lparr>cur_area = 0, cur_walls = init ?n, visited_states = {}\<rparr>"
  let ?st = "\<lparr>deleted = init ?n, forced = ?frc, k_rem = k\<rparr>"
  have h0: "horse_idx < ?n" using d(9) by (simp add: horse_idx_def)
  obtain vis where b: "bfs_reachable ctx (init ?n) = Some (vis, int ?n, False)"
    "length vis = ?n" "horse_idx \<in> bits vis"
    using all_visited [OF s] bd by auto
  have bf: "bits ?frc = {horse_idx}" using h0 by (simp add: bits_bset)
  have sub: "subset_of ?frc vis" using subset_of_bits [of vis ?frc] b(2,3) bf by simp
  obtain r where ms: "min_separator ctx (init ?n) ?frc k = Some r"
    "bits (boundary ctx) = {} \<and> 0 \<le> k \<and> bits (init ?n) \<inter> bits ?frc = {} \<longrightarrow> r = Some (init ?n)"
    using min_separator_spec [OF d(3), of "init ?n" ?frc k] by auto
  have r: "r = Some (init ?n)" using ms(2) bd k by simp
  have "bits (or_with (init ?n) (init ?n)) = {}" using bits_or_with [of "init ?n" "init ?n"] by simp
  then have ow: "or_with (init ?n) (init ?n) = init ?n"
    using bits_empty_init [of "or_with (init ?n) (init ?n)"] by simp
  have be: "bempty (init ?n)" by (simp add: bempty_bits)
  have n0: "0 < int ?n" using d(9) by simp
  have "dfs ctx (init ?n) ?frc k ?g0
      = Some (?g0\<lparr>visited_states := {?st}, cur_area := int ?n, cur_walls := init ?n\<rparr>)"
    using b(1) sub ms(1) r ow be n0
    by (subst dfs.simps) (simp add: Let_def)
  then show ?thesis by (simp add: search_def)
qed

text \<open>Claim C10: when the region that the horse reaches over \<open>.\<close> and \<open>H\<close> cells touches no
  boundary cell, \<open>solve\<close> returns the size of that region and no walls, for every budget
  \<open>k \<ge> 0\<close>, also for \<open>k = 0\<close>.\<close>

theorem already_enclosed:
  assumes "valid_grid grid" and "0 \<le> k"
    and "find_horse grid (width grid) (rows_of grid) = Some h"
    and "\<forall>p. flood (height grid) (width grid) (open_at grid) h p \<longrightarrow>
             \<not> on_boundary (height grid) (width grid) p"
  shows "solve k grid =
           Some (Inr \<lparr>best_area = int (card {p. flood (height grid) (width grid) (open_at grid) h p}),
                      walls = []\<rparr>)"
proof -
  obtain ctx coords where s: "solved k grid h ctx coords"
    using solved_exists [OF assms(3) valid_width(1) [OF assms(1)]] by blast
  note d = solvedD [OF s]
  let ?R = "height grid" and ?C = "width grid"
  obtain idx_of where inv: "idx_inv grid ?R ?C idx_of coords" using d(6) by blast
  have cf: "set coords = {p. flood ?R ?C (open_at grid) h p}" using coords_flood [OF s] .
  have nb: "\<not> on_boundary ?R ?C (coords ! i)" if "i < length coords" for i
  proof -
    have "coords ! i \<in> set coords" using that by (rule nth_mem)
    then have "flood ?R ?C (open_at grid) h (coords ! i)" unfolding cf by simp
    then show ?thesis using assms(4) by blast
  qed
  have "bits (boundary ctx) = {i. i < length coords \<and> on_boundary ?R ?C (coords ! i)}"
    using d(8) unfolding graph_ok_def by blast
  then have bd: "bits (boundary ctx) = {}" using nb by blast
  have l: "length (boundary ctx) = N ctx" using ctx_okD(4) [OF d(3)] .
  have h0: "horse_idx < N ctx" using d(9) by (simp add: horse_idx_def)
  have nt: "\<not> test (boundary ctx) horse_idx" using test_bits [of horse_idx "boundary ctx"] l h0 bd by simp
  obtain g where g: "search k ctx = Some g" "cur_area g = int (N ctx)" "cur_walls g = init (N ctx)"
    using search_enclosed [OF s bd assms(2)] by blast
  have "set (set_bits (init (N ctx))) = {}" by simp
  then have sb: "set_bits (init (N ctx)) = []" by (simp only: set_empty)
  have "card (set coords) = length coords" using idx_inv_distinct [OF inv] by (rule distinct_card)
  then have n: "int (N ctx) = int (card {p. flood ?R ?C (open_at grid) h p})" using cf d(4) by simp
  show ?thesis
    using d(1,2) nt g sb n by (simp add: solve_unfold [OF find_horse_ne [OF d(1)]])
qed

theorem already_enclosed_witness:
  "valid_grid [''###'', ''#H#'', ''###''] \<and> (0 :: int) \<le> 0 \<and>
   find_horse [''###'', ''#H#'', ''###''] (width [''###'', ''#H#'', ''###''])
     (rows_of [''###'', ''#H#'', ''###'']) = Some (1, 1) \<and>
   {p. flood (height [''###'', ''#H#'', ''###'']) (width [''###'', ''#H#'', ''###''])
          (open_at [''###'', ''#H#'', ''###'']) (1, 1) p} = {(1, 1)} \<and>
   \<not> on_boundary (height [''###'', ''#H#'', ''###'']) (width [''###'', ''#H#'', ''###'']) (1, 1) \<and>
   solve 0 [''###'', ''#H#'', ''###''] = Some (Inr \<lparr>best_area = 1, walls = []\<rparr>)"
proof -
  let ?g = "[''###'', ''#H#'', ''###'']"
  have v: "valid_grid ?g" by (simp add: valid_grid_def)
  have k: "(0 :: int) \<le> 0" by simp
  have f: "find_horse ?g (width ?g) (rows_of ?g) = Some (1, 1)" by code_simp
  have e: "p = (1, 1)" if fl: "flood (height ?g) (width ?g) (open_at ?g) (1, 1) p" for p
    using fl
  proof (induction rule: flood.induct)
    case start
    show ?case by simp
  next
    case (step p q)
    obtain di where di: "di < 4" "q = nb (1, 1) di" using step.hyps(2) step.IH by (auto simp: adj4_def)
    then have "di = 0 \<or> di = 1 \<or> di = 2 \<or> di = 3" by arith
    then have "\<not> open_at ?g q"
      using di(2) by (elim disjE) (simp_all add: nb_def drs_def dcs_def open_at_def is_open_cell_def cell_at_def)
    then show ?case using step.hyps(4) by simp
  qed
  have r: "{p. flood (height ?g) (width ?g) (open_at ?g) (1, 1) p} = {(1, 1)}"
    using e flood.start [of "height ?g" "width ?g" "open_at ?g" "(1, 1)"] by auto
  have n: "\<not> on_boundary (height ?g) (width ?g) (1, 1)"
    by (simp add: on_boundary_def height_def width_def)
  have b: "\<forall>p. flood (height ?g) (width ?g) (open_at ?g) (1, 1) p \<longrightarrow>
        \<not> on_boundary (height ?g) (width ?g) p"
    using e n by blast
  have "solve 0 ?g = Some (Inr \<lparr>best_area = int (card {p. flood (height ?g) (width ?g)
            (open_at ?g) (1, 1) p}), walls = []\<rparr>)"
    using already_enclosed [OF v k f b] .
  then have "solve 0 ?g = Some (Inr \<lparr>best_area = 1, walls = []\<rparr>)" unfolding r by simp
  then show ?thesis using v k f r n by blast
qed

end
